theory Spec2Isabelle
  imports Main "HOL-Library.Sublist" "HOL-Library.Monad_Syntax"
begin

section \<open>Sparse matrix as an ordered chain of nodes (sparse_matrix/matrix.py)\<close>

text \<open>
  The Python class \<^verbatim>\<open>Node\<close> holds \<^verbatim>\<open>row\<close>, \<^verbatim>\<open>col\<close>, \<^verbatim>\<open>value\<close> and \<^verbatim>\<open>next\<close>.
  In the first model the chain that starts at \<^verbatim>\<open>self.head\<close> and follows \<^verbatim>\<open>next\<close>
  is a list of nodes: \<open>[]\<close> is \<^verbatim>\<open>None\<close>, and the \<^verbatim>\<open>next\<close> field of a node is the
  rest of the list. Python integers are unbounded, hence \<open>int\<close>. The field \<^verbatim>\<open>value\<close> is
  called \<open>val\<close> here.
\<close>

record node =
  row :: int
  col :: int
  val :: int

record sparse_matrix =
  head :: "node list"
  num_rows :: int
  num_cols :: int

text \<open>The only exception the arithmetic raises is \<^verbatim>\<open>ValueError(message)\<close>.\<close>

datatype error = ValueError string

text \<open>\<^verbatim>\<open>SparseMatrix(num_rows=nr, num_cols=nc)\<close>: no file path, an empty chain.\<close>

definition SparseMatrix :: "int \<Rightarrow> int \<Rightarrow> sparse_matrix" where
  "SparseMatrix nr nc = \<lparr>head = [], num_rows = nr, num_cols = nc\<rparr>"

subsection \<open>set_element\<close>

text \<open>
  The scan of \<^verbatim>\<open>set_element\<close>:
  \<^verbatim>\<open>while current and (current.row < row or (current.row == row and current.col < col))\<close>
  walks past every node ordered before the new one, then the new node is linked in
  front of \<^verbatim>\<open>current\<close> (after \<^verbatim>\<open>prev\<close>, or as the new head when \<^verbatim>\<open>prev\<close> is \<^verbatim>\<open>None\<close>).
\<close>

fun insert_node :: "node \<Rightarrow> node list \<Rightarrow> node list" where
  "insert_node new_node [] = [new_node]"
| "insert_node new_node (current # rest) =
     (if row current < row new_node \<or> (row current = row new_node \<and> col current < col new_node)
      then current # insert_node new_node rest
      else new_node # current # rest)"

definition set_element :: "sparse_matrix \<Rightarrow> int \<Rightarrow> int \<Rightarrow> int \<Rightarrow> sparse_matrix" where
  "set_element self r c v =
     (if v = 0 then self
      else let new_node = \<lparr>row = r, col = c, val = v\<rparr> in
        if head self = [] then self\<lparr>head := [new_node]\<rparr>
        else self\<lparr>head := insert_node new_node (head self)\<rparr>)"

subsection \<open>get_element\<close>

fun lookup :: "node list \<Rightarrow> int \<Rightarrow> int \<Rightarrow> int" where
  "lookup [] r c = 0"
| "lookup (current # rest) r c =
     (if row current = r \<and> col current = c then val current else lookup rest r c)"

definition get_element :: "sparse_matrix \<Rightarrow> int \<Rightarrow> int \<Rightarrow> int" where
  "get_element self r c = lookup (head self) r c"

subsection \<open>add, subtract, multiply\<close>

text \<open>First loop of \<^verbatim>\<open>add\<close> and \<^verbatim>\<open>subtract\<close>: every node of \<^verbatim>\<open>self\<close> is set in the result.\<close>

fun copy_loop :: "sparse_matrix \<Rightarrow> node list \<Rightarrow> sparse_matrix" where
  "copy_loop result [] = result"
| "copy_loop result (current # rest) =
     copy_loop (set_element result (row current) (col current) (val current)) rest"

text \<open>Second loop of \<^verbatim>\<open>add\<close>: get the result's value, set it plus the node's value.\<close>

fun add_loop :: "sparse_matrix \<Rightarrow> node list \<Rightarrow> sparse_matrix" where
  "add_loop result [] = result"
| "add_loop result (current # rest) =
     (let v = get_element result (row current) (col current)
      in add_loop (set_element result (row current) (col current) (v + val current)) rest)"

definition add :: "sparse_matrix \<Rightarrow> sparse_matrix \<Rightarrow> error + sparse_matrix" where
  "add self other =
     (if num_rows self \<noteq> num_rows other \<or> num_cols self \<noteq> num_cols other
      then Inl (ValueError ''Matrix dimensions must match for addition.'')
      else let result = SparseMatrix (num_rows self) (num_cols self);
               result = copy_loop result (head self)
           in Inr (add_loop result (head other)))"

fun subtract_loop :: "sparse_matrix \<Rightarrow> node list \<Rightarrow> sparse_matrix" where
  "subtract_loop result [] = result"
| "subtract_loop result (current # rest) =
     (let v = get_element result (row current) (col current)
      in subtract_loop (set_element result (row current) (col current) (v - val current)) rest)"

definition subtract :: "sparse_matrix \<Rightarrow> sparse_matrix \<Rightarrow> error + sparse_matrix" where
  "subtract self other =
     (if num_rows self \<noteq> num_rows other \<or> num_cols self \<noteq> num_cols other
      then Inl (ValueError ''Matrix dimensions must match for subtraction.'')
      else let result = SparseMatrix (num_rows self) (num_cols self);
               result = copy_loop result (head self)
           in Inr (subtract_loop result (head other)))"

text \<open>The inner loop of \<^verbatim>\<open>multiply\<close> runs over the nodes of \<^verbatim>\<open>other\<close> for one node of \<^verbatim>\<open>self\<close>.\<close>

fun multiply_inner :: "sparse_matrix \<Rightarrow> node \<Rightarrow> node list \<Rightarrow> sparse_matrix" where
  "multiply_inner result current_self [] = result"
| "multiply_inner result current_self (current_other # rest) =
     (if col current_self = row current_other
      then let existing_value = get_element result (row current_self) (col current_other)
           in multiply_inner
                (set_element result (row current_self) (col current_other)
                   (existing_value + val current_self * val current_other))
                current_self rest
      else multiply_inner result current_self rest)"

fun multiply_outer :: "sparse_matrix \<Rightarrow> node list \<Rightarrow> node list \<Rightarrow> sparse_matrix" where
  "multiply_outer result [] other_head = result"
| "multiply_outer result (current_self # rest) other_head =
     multiply_outer (multiply_inner result current_self other_head) rest other_head"

definition multiply :: "sparse_matrix \<Rightarrow> sparse_matrix \<Rightarrow> error + sparse_matrix" where
  "multiply self other =
     (if num_cols self \<noteq> num_rows other
      then Inl (ValueError
        ''Number of columns in first matrix must be equal to the number of rows in second matrix for multiplication.'')
      else let result = SparseMatrix (num_rows self) (num_cols other)
           in Inr (multiply_outer result (head self) (head other)))"

section \<open>Order of the chain\<close>

definition coord :: "node \<Rightarrow> int \<times> int" where
  "coord n = (row n, col n)"

text \<open>\<open>precedes a b\<close>: the test of the scan in \<^verbatim>\<open>set_element\<close>, \<open>a\<close> is ordered before \<open>b\<close>.\<close>

definition precedes :: "node \<Rightarrow> node \<Rightarrow> bool" where
  "precedes a b \<longleftrightarrow> row a < row b \<or> (row a = row b \<and> col a < col b)"

definition strictly_increasing :: "node list \<Rightarrow> bool" where
  "strictly_increasing xs = sorted_wrt precedes xs"

definition weakly_increasing :: "node list \<Rightarrow> bool" where
  "weakly_increasing xs = sorted_wrt (\<lambda>a b. \<not> precedes b a) xs"

text \<open>A finite sequence of \<^verbatim>\<open>set_element\<close> calls, each given as \<open>(row, col, value)\<close>.\<close>

fun set_elements :: "sparse_matrix \<Rightarrow> (int \<times> int \<times> int) list \<Rightarrow> sparse_matrix" where
  "set_elements self [] = self"
| "set_elements self ((r, c, v) # calls) = set_elements (set_element self r c v) calls"


section \<open>Second model: nodes and matrices as objects in a store\<close>

text \<open>
  The first model takes for granted that the chain of one matrix shares no node with
  another and that \<^verbatim>\<open>add\<close>, \<^verbatim>\<open>subtract\<close> and \<^verbatim>\<open>multiply\<close> leave their operands alone.
  The second model makes that checkable: a \<^verbatim>\<open>Node\<close> and a \<^verbatim>\<open>SparseMatrix\<close> are objects
  in a store, a reference is the index of the object, \<^verbatim>\<open>None\<close> is \<open>None\<close>, and the methods
  are written with the assignments of the source (\<^verbatim>\<open>prev.next = new_node\<close>,
  \<^verbatim>\<open>self.head = new_node\<close>, \<^verbatim>\<open>new_node.next = current\<close>). A function of this model returns
  \<open>None\<close> when a reference it follows is not in the store or when a loop of the source
  would not end (a chain that runs into itself).
\<close>

type_synonym ref = nat

record node_obj =
  row_of :: int
  col_of :: int
  value_of :: int
  next_of :: "ref option"

record matrix_obj =
  head_of :: "ref option"
  num_rows_of :: int
  num_cols_of :: int

record store =
  nodes :: "node_obj list"
  matrices :: "matrix_obj list"

definition node_at :: "store \<Rightarrow> ref \<Rightarrow> node_obj option" where
  "node_at s a = (if a < length (nodes s) then Some (nodes s ! a) else None)"

definition matrix_at :: "store \<Rightarrow> ref \<Rightarrow> matrix_obj option" where
  "matrix_at s m = (if m < length (matrices s) then Some (matrices s ! m) else None)"

text \<open>\<^verbatim>\<open>Node(row, col, value)\<close> and \<^verbatim>\<open>SparseMatrix(num_rows=nr, num_cols=nc)\<close>: a new object
  at the next free index.\<close>

definition new_Node :: "store \<Rightarrow> int \<Rightarrow> int \<Rightarrow> int \<Rightarrow> store \<times> ref" where
  "new_Node s r c v =
     (s\<lparr>nodes := nodes s @ [\<lparr>row_of = r, col_of = c, value_of = v, next_of = None\<rparr>]\<rparr>,
      length (nodes s))"

definition new_SparseMatrix :: "store \<Rightarrow> int \<Rightarrow> int \<Rightarrow> store \<times> ref" where
  "new_SparseMatrix s nr nc =
     (s\<lparr>matrices := matrices s @ [\<lparr>head_of = None, num_rows_of = nr, num_cols_of = nc\<rparr>]\<rparr>,
      length (matrices s))"

text \<open>The assignments \<^verbatim>\<open>a.next = q\<close> and \<^verbatim>\<open>m.head = q\<close>.\<close>

definition set_next :: "store \<Rightarrow> ref \<Rightarrow> ref option \<Rightarrow> store" where
  "set_next s a q = s\<lparr>nodes := (nodes s)[a := (nodes s ! a)\<lparr>next_of := q\<rparr>]\<rparr>"

definition set_head :: "store \<Rightarrow> ref \<Rightarrow> ref option \<Rightarrow> store" where
  "set_head s m q = s\<lparr>matrices := (matrices s)[m := (matrices s ! m)\<lparr>head_of := q\<rparr>]\<rparr>"

text \<open>
  The scan of \<^verbatim>\<open>set_element\<close> with its two variables \<^verbatim>\<open>prev\<close> and \<^verbatim>\<open>current\<close>; it returns
  both when the loop ends.
\<close>

partial_function (option) scan ::
  "store \<Rightarrow> int \<Rightarrow> int \<Rightarrow> ref option \<Rightarrow> ref option \<Rightarrow> (ref option \<times> ref option) option" where
  "scan s r c prev current =
     (case current of
        None \<Rightarrow> Some (prev, current)
      | Some a \<Rightarrow>
          (case node_at s a of
             None \<Rightarrow> None
           | Some n \<Rightarrow>
               if row_of n < r \<or> (row_of n = r \<and> col_of n < c)
               then scan s r c current (next_of n)
               else Some (prev, current)))"

definition set_element_st :: "store \<Rightarrow> ref \<Rightarrow> int \<Rightarrow> int \<Rightarrow> int \<Rightarrow> store option" where
  "set_element_st s self r c v =
     (if v = 0 then Some s
      else case new_Node s r c v of (s, new_node) \<Rightarrow>
        (case matrix_at s self of
           None \<Rightarrow> None
         | Some m \<Rightarrow>
             if head_of m = None then Some (set_head s self (Some new_node))
             else (case scan s r c None (head_of m) of
                     None \<Rightarrow> None
                   | Some (prev, current) \<Rightarrow>
                       let s = (case prev of
                                  Some p \<Rightarrow> set_next s p (Some new_node)
                                | None \<Rightarrow> set_head s self (Some new_node))
                       in Some (set_next s new_node current))))"

text \<open>The loop of \<^verbatim>\<open>get_element\<close>; the method reads the store and returns a value only.\<close>

partial_function (option) find_st :: "store \<Rightarrow> ref option \<Rightarrow> int \<Rightarrow> int \<Rightarrow> int option" where
  "find_st s current r c =
     (case current of
        None \<Rightarrow> Some 0
      | Some a \<Rightarrow>
          (case node_at s a of
             None \<Rightarrow> None
           | Some n \<Rightarrow>
               if row_of n = r \<and> col_of n = c then Some (value_of n)
               else find_st s (next_of n) r c))"

definition get_element_st :: "store \<Rightarrow> ref \<Rightarrow> int \<Rightarrow> int \<Rightarrow> int option" where
  "get_element_st s self r c =
     (case matrix_at s self of None \<Rightarrow> None | Some m \<Rightarrow> find_st s (head_of m) r c)"

text \<open>
  The loops of \<^verbatim>\<open>add\<close>, \<^verbatim>\<open>subtract\<close> and \<^verbatim>\<open>multiply\<close> walk the chain of an operand while
  \<^verbatim>\<open>set_element\<close> changes the store: \<^verbatim>\<open>current.next\<close> is read from the store as it is
  after the call. The arithmetic methods return the error, or the new store and the
  reference of the result.
\<close>

partial_function (option) copy_loop_st :: "store \<Rightarrow> ref \<Rightarrow> ref option \<Rightarrow> store option" where
  "copy_loop_st s result current =
     (case current of
        None \<Rightarrow> Some s
      | Some a \<Rightarrow> do {
          n \<leftarrow> node_at s a;
          s \<leftarrow> set_element_st s result (row_of n) (col_of n) (value_of n);
          n \<leftarrow> node_at s a;
          copy_loop_st s result (next_of n)
        })"

partial_function (option) add_loop_st :: "store \<Rightarrow> ref \<Rightarrow> ref option \<Rightarrow> store option" where
  "add_loop_st s result current =
     (case current of
        None \<Rightarrow> Some s
      | Some a \<Rightarrow> do {
          n \<leftarrow> node_at s a;
          v \<leftarrow> get_element_st s result (row_of n) (col_of n);
          s \<leftarrow> set_element_st s result (row_of n) (col_of n) (v + value_of n);
          n \<leftarrow> node_at s a;
          add_loop_st s result (next_of n)
        })"

definition add_st :: "store \<Rightarrow> ref \<Rightarrow> ref \<Rightarrow> (error + store \<times> ref) option" where
  "add_st s self other = do {
     a \<leftarrow> matrix_at s self;
     b \<leftarrow> matrix_at s other;
     if num_rows_of a \<noteq> num_rows_of b \<or> num_cols_of a \<noteq> num_cols_of b
     then Some (Inl (ValueError ''Matrix dimensions must match for addition.''))
     else case new_SparseMatrix s (num_rows_of a) (num_cols_of a) of (s, result) \<Rightarrow> do {
       a \<leftarrow> matrix_at s self;
       s \<leftarrow> copy_loop_st s result (head_of a);
       b \<leftarrow> matrix_at s other;
       s \<leftarrow> add_loop_st s result (head_of b);
       Some (Inr (s, result))
     }
   }"

partial_function (option) subtract_loop_st :: "store \<Rightarrow> ref \<Rightarrow> ref option \<Rightarrow> store option" where
  "subtract_loop_st s result current =
     (case current of
        None \<Rightarrow> Some s
      | Some a \<Rightarrow> do {
          n \<leftarrow> node_at s a;
          v \<leftarrow> get_element_st s result (row_of n) (col_of n);
          s \<leftarrow> set_element_st s result (row_of n) (col_of n) (v - value_of n);
          n \<leftarrow> node_at s a;
          subtract_loop_st s result (next_of n)
        })"

definition subtract_st :: "store \<Rightarrow> ref \<Rightarrow> ref \<Rightarrow> (error + store \<times> ref) option" where
  "subtract_st s self other = do {
     a \<leftarrow> matrix_at s self;
     b \<leftarrow> matrix_at s other;
     if num_rows_of a \<noteq> num_rows_of b \<or> num_cols_of a \<noteq> num_cols_of b
     then Some (Inl (ValueError ''Matrix dimensions must match for subtraction.''))
     else case new_SparseMatrix s (num_rows_of a) (num_cols_of a) of (s, result) \<Rightarrow> do {
       a \<leftarrow> matrix_at s self;
       s \<leftarrow> copy_loop_st s result (head_of a);
       b \<leftarrow> matrix_at s other;
       s \<leftarrow> subtract_loop_st s result (head_of b);
       Some (Inr (s, result))
     }
   }"

partial_function (option) multiply_inner_st ::
  "store \<Rightarrow> ref \<Rightarrow> ref option \<Rightarrow> ref \<Rightarrow> store option" where
  "multiply_inner_st s result current_other current_self =
     (case current_other of
        None \<Rightarrow> Some s
      | Some b \<Rightarrow> do {
          na \<leftarrow> node_at s current_self;
          nb \<leftarrow> node_at s b;
          s \<leftarrow> (if col_of na = row_of nb
                then do {
                  existing_value \<leftarrow> get_element_st s result (row_of na) (col_of nb);
                  set_element_st s result (row_of na) (col_of nb)
                    (existing_value + value_of na * value_of nb)
                }
                else Some s);
          nb \<leftarrow> node_at s b;
          multiply_inner_st s result (next_of nb) current_self
        })"

partial_function (option) multiply_outer_st ::
  "store \<Rightarrow> ref \<Rightarrow> ref option \<Rightarrow> ref \<Rightarrow> store option" where
  "multiply_outer_st s result current_self other =
     (case current_self of
        None \<Rightarrow> Some s
      | Some a \<Rightarrow> do {
          b \<leftarrow> matrix_at s other;
          s \<leftarrow> multiply_inner_st s result (head_of b) a;
          na \<leftarrow> node_at s a;
          multiply_outer_st s result (next_of na) other
        })"

definition multiply_st :: "store \<Rightarrow> ref \<Rightarrow> ref \<Rightarrow> (error + store \<times> ref) option" where
  "multiply_st s self other = do {
     a \<leftarrow> matrix_at s self;
     b \<leftarrow> matrix_at s other;
     if num_cols_of a \<noteq> num_rows_of b
     then Some (Inl (ValueError
       ''Number of columns in first matrix must be equal to the number of rows in second matrix for multiplication.''))
     else case new_SparseMatrix s (num_rows_of a) (num_cols_of b) of (s, result) \<Rightarrow> do {
       a \<leftarrow> matrix_at s self;
       s \<leftarrow> multiply_outer_st s result (head_of a) other;
       Some (Inr (s, result))
     }
   }"

declare scan.simps [code]
declare find_st.simps [code]
declare copy_loop_st.simps [code]
declare add_loop_st.simps [code]
declare subtract_loop_st.simps [code]
declare multiply_inner_st.simps [code]
declare multiply_outer_st.simps [code]

subsection \<open>From the store to the first model\<close>

text \<open>
  \<open>chain s p as\<close>: following \<^verbatim>\<open>next\<close> from \<open>p\<close> in the store \<open>s\<close> visits the nodes \<open>as\<close> and
  ends at \<^verbatim>\<open>None\<close>. \<open>contents\<close> reads row, column and value of these nodes, and
  \<open>represents s m bs M\<close> says that the matrix object \<open>m\<close> has the chain \<open>bs\<close> and is the
  matrix \<open>M\<close> of the first model.
\<close>

fun chain :: "store \<Rightarrow> ref option \<Rightarrow> ref list \<Rightarrow> bool" where
  "chain s p [] \<longleftrightarrow> p = None"
| "chain s p (a # as) \<longleftrightarrow> p = Some a \<and> a < length (nodes s) \<and> chain s (next_of (nodes s ! a)) as"

definition abs_node :: "node_obj \<Rightarrow> node" where
  "abs_node n = \<lparr>row = row_of n, col = col_of n, val = value_of n\<rparr>"

definition contents :: "store \<Rightarrow> ref list \<Rightarrow> node list" where
  "contents s as = map (\<lambda>a. abs_node (nodes s ! a)) as"

definition represents :: "store \<Rightarrow> ref \<Rightarrow> ref list \<Rightarrow> sparse_matrix \<Rightarrow> bool" where
  "represents s m bs M \<longleftrightarrow>
     m < length (matrices s) \<and> chain s (head_of (matrices s ! m)) bs \<and>
     M = \<lparr>head = contents s bs, num_rows = num_rows_of (matrices s ! m),
          num_cols = num_cols_of (matrices s ! m)\<rparr>"

text \<open>
  \<open>ordered_before s r c a\<close> is the test of the scan on the node at \<open>a\<close>, and
  \<open>linked_in s m r c v bs\<close> is the store after \<^verbatim>\<open>set_element(r, c, v)\<close> with \<open>v \<noteq> 0\<close> on a
  matrix whose chain is \<open>bs\<close>, in closed form (lemma \<open>set_element_st_eq\<close>).
\<close>

definition ordered_before :: "store \<Rightarrow> int \<Rightarrow> int \<Rightarrow> ref \<Rightarrow> bool" where
  "ordered_before s r c a \<longleftrightarrow>
     row_of (nodes s ! a) < r \<or> (row_of (nodes s ! a) = r \<and> col_of (nodes s ! a) < c)"

definition linked_in :: "store \<Rightarrow> ref \<Rightarrow> int \<Rightarrow> int \<Rightarrow> int \<Rightarrow> ref list \<Rightarrow> store" where
  "linked_in s m r c v bs =
     (let xs = takeWhile (ordered_before s r c) bs;
          ys = dropWhile (ordered_before s r c) bs;
          new_node = length (nodes s);
          s1 = s\<lparr>nodes := nodes s @ [\<lparr>row_of = r, col_of = c, value_of = v, next_of = None\<rparr>]\<rparr>;
          s2 = (if xs = [] then set_head s1 m (Some new_node)
                else set_next s1 (last xs) (Some new_node))
      in set_next s2 new_node (case ys of [] \<Rightarrow> None | b # _ \<Rightarrow> Some b))"

text \<open>
  \<open>extends n0 result s s'\<close>: from \<open>s\<close> to \<open>s'\<close> no node below \<open>n0\<close> and no matrix object
  other than \<open>result\<close> has changed.
\<close>

definition extends :: "nat \<Rightarrow> ref \<Rightarrow> store \<Rightarrow> store \<Rightarrow> bool" where
  "extends n0 result s s' \<longleftrightarrow>
     length (nodes s) \<le> length (nodes s') \<and> length (matrices s') = length (matrices s) \<and>
     (\<forall>a<n0. nodes s' ! a = nodes s ! a) \<and>
     (\<forall>k<length (matrices s). k \<noteq> result \<longrightarrow> matrices s' ! k = matrices s ! k)"

text \<open>
  What an arithmetic method returns, given the value \<open>expected\<close> of the first model: the
  same error, or a new matrix object that represents the expected matrix, built from
  new nodes only, in a store that still holds every earlier object as it was.
\<close>

definition returns_fresh ::
  "store \<Rightarrow> error + sparse_matrix \<Rightarrow> (error + store \<times> ref) option \<Rightarrow> bool" where
  "returns_fresh s expected out \<longleftrightarrow>
     (case expected of
        Inl e \<Rightarrow> out = Some (Inl e)
      | Inr R \<Rightarrow> \<exists>s' cs. out = Some (Inr (s', length (matrices s))) \<and>
          represents s' (length (matrices s)) cs R \<and> (\<forall>c\<in>set cs. length (nodes s) \<le> c) \<and>
          prefix (nodes s) (nodes s') \<and> prefix (matrices s) (matrices s') \<and>
          length (matrices s') = Suc (length (matrices s)))"

subsection \<open>The lifetime of a store\<close>

text \<open>
  A client of the class calls the constructor and the methods in any order. A call
  names its matrices by reference; the value a call returns is dropped, an error raised
  by the arithmetic leaves the store as it was.
\<close>

datatype call =
    Create int int
  | SetElement ref int int int
  | GetElement ref int int
  | Add ref ref
  | Subtract ref ref
  | Multiply ref ref

fun after_arith :: "store \<Rightarrow> (error + store \<times> ref) option \<Rightarrow> store option" where
  "after_arith s None = None"
| "after_arith s (Some (Inl e)) = Some s"
| "after_arith s (Some (Inr (s', result))) = Some s'"

fun run_call :: "store \<Rightarrow> call \<Rightarrow> store option" where
  "run_call s (Create nr nc) = Some (fst (new_SparseMatrix s nr nc))"
| "run_call s (SetElement m r c v) = set_element_st s m r c v"
| "run_call s (GetElement m r c) =
     (case get_element_st s m r c of None \<Rightarrow> None | Some v \<Rightarrow> Some s)"
| "run_call s (Add a b) = after_arith s (add_st s a b)"
| "run_call s (Subtract a b) = after_arith s (subtract_st s a b)"
| "run_call s (Multiply a b) = after_arith s (multiply_st s a b)"

fun run_calls :: "store \<Rightarrow> call list \<Rightarrow> store option" where
  "run_calls s [] = Some s"
| "run_calls s (c # cs) = (case run_call s c of None \<Rightarrow> None | Some s' \<Rightarrow> run_calls s' cs)"

fun valid_call :: "store \<Rightarrow> call \<Rightarrow> bool" where
  "valid_call s (Create nr nc) = True"
| "valid_call s (SetElement m r c v) = (m < length (matrices s))"
| "valid_call s (GetElement m r c) = (m < length (matrices s))"
| "valid_call s (Add a b) = (a < length (matrices s) \<and> b < length (matrices s))"
| "valid_call s (Subtract a b) = (a < length (matrices s) \<and> b < length (matrices s))"
| "valid_call s (Multiply a b) = (a < length (matrices s) \<and> b < length (matrices s))"

fun is_set_element :: "call \<Rightarrow> bool" where
  "is_set_element (SetElement m r c v) = True"
| "is_set_element _ = False"

text \<open>
  \<open>well_formed s f\<close>: every matrix object \<open>m\<close> of the store has the chain \<open>f m\<close>, and the
  chains of two matrix objects share no node. \<open>grows s f s' f'\<close>: every matrix of \<open>s\<close> is
  still there in \<open>s'\<close>, its old chain is a subsequence of its new one, and its old nodes
  hold the same row, column and value.
\<close>

definition well_formed :: "store \<Rightarrow> (ref \<Rightarrow> ref list) \<Rightarrow> bool" where
  "well_formed s f \<longleftrightarrow>
     (\<forall>m<length (matrices s). chain s (head_of (matrices s ! m)) (f m)) \<and>
     (\<forall>m<length (matrices s). \<forall>m'<length (matrices s). m \<noteq> m' \<longrightarrow> set (f m) \<inter> set (f m') = {})"

definition grows :: "store \<Rightarrow> (ref \<Rightarrow> ref list) \<Rightarrow> store \<Rightarrow> (ref \<Rightarrow> ref list) \<Rightarrow> bool" where
  "grows s f s' f' \<longleftrightarrow>
     length (matrices s) \<le> length (matrices s') \<and>
     (\<forall>m<length (matrices s). subseq (f m) (f' m) \<and> contents s' (f m) = contents s (f m))"

section \<open>Properties of get_element and set_element\<close>

lemma lookup_find:
  "lookup xs r c = (case find (\<lambda>n. row n = r \<and> col n = c) xs of None \<Rightarrow> 0 | Some n \<Rightarrow> val n)"
  by (induction xs) simp_all

lemma lookup_insert_node_same:
  "lookup (insert_node n xs) (row n) (col n) = val n"
  by (induction xs) auto

lemma lookup_insert_node_other:
  "row n \<noteq> r \<or> col n \<noteq> c \<Longrightarrow> lookup (insert_node n xs) r c = lookup xs r c"
  by (induction xs) auto

lemma length_insert_node: "length (insert_node n xs) = Suc (length xs)"
  by (induction xs) simp_all

lemma head_set_element:
  "head (set_element m r c v) =
     (if v = 0 then head m else insert_node \<lparr>row = r, col = c, val = v\<rparr> (head m))"
  by (cases "head m") (simp_all add: set_element_def Let_def)

lemma dims_set_element [simp]:
  "num_rows (set_element m r c v) = num_rows m" "num_cols (set_element m r c v) = num_cols m"
  by (simp_all add: set_element_def Let_def)

section \<open>The chain stays in order, but not strictly\<close>

lemma set_insert_node: "set (insert_node n xs) = insert n (set xs)"
  by (induction xs) auto

lemma weakly_insert_node:
  "weakly_increasing xs \<Longrightarrow> weakly_increasing (insert_node n xs)"
  unfolding weakly_increasing_def
  by (induction xs) (auto simp: set_insert_node precedes_def)

lemma weakly_set_element:
  "weakly_increasing (head m) \<Longrightarrow> weakly_increasing (head (set_element m r c v))"
  by (simp add: head_set_element weakly_insert_node)

text \<open>
  What the insertion does keep: the chain is never out of order. Nodes with equal
  coordinates are allowed by this order, and the code does create them.
\<close>

lemma weakly_set_elements:
  "weakly_increasing (head m) \<Longrightarrow> weakly_increasing (head (set_elements m calls))"
  by (induction m calls rule: set_elements.induct) (simp_all add: weakly_set_element)

lemma weakly_from_empty:
  "weakly_increasing (head (set_elements (SparseMatrix nr nc) calls))"
  by (rule weakly_set_elements) (simp add: SparseMatrix_def weakly_increasing_def)

text \<open>
  C3 (the code departs from the claim): two calls of \<^verbatim>\<open>set_element\<close> at the same
  coordinates, starting from an empty 1x1 matrix, leave two nodes for \<open>(0,0)\<close>; the chain
  is not strictly increasing and its coordinates are not distinct.
\<close>

theorem set_element_twice_duplicates:
  "head (set_elements (SparseMatrix 1 1) [(0, 0, 1), (0, 0, 2)]) =
     [\<lparr>row = 0, col = 0, val = 2\<rparr>, \<lparr>row = 0, col = 0, val = 1\<rparr>] \<and>
   \<not> strictly_increasing (head (set_elements (SparseMatrix 1 1) [(0, 0, 1), (0, 0, 2)])) \<and>
   \<not> distinct (map coord (head (set_elements (SparseMatrix 1 1) [(0, 0, 1), (0, 0, 2)])))"
  by (simp add: SparseMatrix_def set_element_def strictly_increasing_def precedes_def coord_def)

section \<open>Values of the results of add and subtract\<close>

lemma get_set_element:
  "get_element (set_element m r c v) r' c' =
     (if v \<noteq> 0 \<and> r' = r \<and> c' = c then v else get_element m r' c')"
  using lookup_insert_node_same [of "\<lparr>row = r, col = c, val = v\<rparr>" "head m"]
    lookup_insert_node_other [of "\<lparr>row = r, col = c, val = v\<rparr>" r' c' "head m"]
  by (auto simp add: get_element_def head_set_element)

lemma lookup_absent: "(r, c) \<notin> coord ` set xs \<Longrightarrow> lookup xs r c = 0"
  by (induction xs) (auto simp: coord_def)

lemma lookup_present:
  "distinct (map coord xs) \<Longrightarrow> n \<in> set xs \<Longrightarrow> lookup xs (row n) (col n) = val n"
  by (induction xs) (auto simp: coord_def rev_image_eqI)

lemma get_copy_loop:
  "distinct (map coord xs) \<Longrightarrow>
   get_element (copy_loop m xs) r c =
     (if lookup xs r c \<noteq> 0 then lookup xs r c else get_element m r c)"
proof (induction xs arbitrary: m)
  case Nil
  then show ?case by simp
next
  case (Cons n xs)
  show ?case
  proof (cases "coord n = (r, c)")
    case True
    with Cons.prems have "lookup xs r c = 0"
      by (intro lookup_absent) auto
    with True Cons show ?thesis
      by (auto simp: get_set_element coord_def)
  next
    case False
    with Cons show ?thesis
      by (auto simp: get_set_element coord_def)
  qed
qed

lemma get_add_loop:
  "distinct (map coord ys) \<Longrightarrow>
   get_element (add_loop m ys) r c =
     (if get_element m r c + lookup ys r c \<noteq> 0 then get_element m r c + lookup ys r c
      else get_element m r c)"
proof (induction ys arbitrary: m)
  case Nil
  then show ?case by simp
next
  case (Cons n ys)
  show ?case
  proof (cases "coord n = (r, c)")
    case True
    with Cons.prems have "lookup ys r c = 0"
      by (intro lookup_absent) auto
    with True Cons show ?thesis
      by (auto simp: get_set_element coord_def Let_def)
  next
    case False
    with Cons show ?thesis
      by (auto simp: get_set_element coord_def Let_def)
  qed
qed

lemma get_subtract_loop:
  "distinct (map coord ys) \<Longrightarrow>
   get_element (subtract_loop m ys) r c =
     (if get_element m r c - lookup ys r c \<noteq> 0 then get_element m r c - lookup ys r c
      else get_element m r c)"
proof (induction ys arbitrary: m)
  case Nil
  then show ?case by simp
next
  case (Cons n ys)
  show ?case
  proof (cases "coord n = (r, c)")
    case True
    with Cons.prems have "lookup ys r c = 0"
      by (intro lookup_absent) auto
    with True Cons show ?thesis
      by (auto simp: get_set_element coord_def Let_def)
  next
    case False
    with Cons show ?thesis
      by (auto simp: get_set_element coord_def Let_def)
  qed
qed

lemma dims_copy_loop [simp]:
  "num_rows (copy_loop m xs) = num_rows m" "num_cols (copy_loop m xs) = num_cols m"
  by (induction xs arbitrary: m) simp_all

lemma dims_add_loop [simp]:
  "num_rows (add_loop m xs) = num_rows m" "num_cols (add_loop m xs) = num_cols m"
  by (induction xs arbitrary: m) (simp_all add: Let_def)

lemma dims_subtract_loop [simp]:
  "num_rows (subtract_loop m xs) = num_rows m" "num_cols (subtract_loop m xs) = num_cols m"
  by (induction xs arbitrary: m) (simp_all add: Let_def)

lemma dims_multiply_inner [simp]:
  "num_rows (multiply_inner m a ys) = num_rows m" "num_cols (multiply_inner m a ys) = num_cols m"
  by (induction ys arbitrary: m) (simp_all add: Let_def)

lemma dims_multiply_outer [simp]:
  "num_rows (multiply_outer m xs ys) = num_rows m" "num_cols (multiply_outer m xs ys) = num_cols m"
  by (induction xs arbitrary: m) simp_all

text \<open>
  On operands without repeated coordinates the value of the sum at \<open>(r,c)\<close> is
  \<open>A[r][c] + B[r][c]\<close> unless that sum is 0: then the second loop's \<^verbatim>\<open>set_element\<close>
  returns at once and the value copied from \<open>A\<close> stays.
\<close>

lemma get_add:
  assumes "num_rows A = num_rows B" "num_cols A = num_cols B"
    and "distinct (map coord (head A))" "distinct (map coord (head B))"
  shows "\<exists>R. add A B = Inr R \<and>
           get_element R r c =
             (if get_element A r c + get_element B r c \<noteq> 0
              then get_element A r c + get_element B r c else get_element A r c)"
  using assms
  by (simp add: add_def Let_def get_add_loop get_copy_loop SparseMatrix_def)
     (simp add: get_element_def)

lemma get_subtract:
  assumes "num_rows A = num_rows B" "num_cols A = num_cols B"
    and "distinct (map coord (head A))" "distinct (map coord (head B))"
  shows "\<exists>R. subtract A B = Inr R \<and>
           get_element R r c =
             (if get_element A r c - get_element B r c \<noteq> 0
              then get_element A r c - get_element B r c else get_element A r c)"
  using assms
  by (simp add: subtract_def Let_def get_subtract_loop get_copy_loop SparseMatrix_def)
     (simp add: get_element_def)

text \<open>
  C1 (the code departs from the claim): \<open>A\<close> holds 5 at \<open>(0,0)\<close> and \<open>B\<close> holds -5 there,
  both 1x1. The second loop of \<^verbatim>\<open>add\<close> calls \<^verbatim>\<open>set_element(0, 0, 0)\<close>, which returns at
  once, so the result still holds the 5 copied from \<open>A\<close>, not \<open>5 + (-5) = 0\<close>.
\<close>

theorem add_cancelling_values:
  "add \<lparr>head = [\<lparr>row = 0, col = 0, val = 5\<rparr>], num_rows = 1, num_cols = 1\<rparr>
       \<lparr>head = [\<lparr>row = 0, col = 0, val = - 5\<rparr>], num_rows = 1, num_cols = 1\<rparr> =
     Inr \<lparr>head = [\<lparr>row = 0, col = 0, val = 5\<rparr>], num_rows = 1, num_cols = 1\<rparr> \<and>
   get_element \<lparr>head = [\<lparr>row = 0, col = 0, val = 5\<rparr>], num_rows = 1, num_cols = 1\<rparr> 0 0 = 5 \<and>
   get_element \<lparr>head = [\<lparr>row = 0, col = 0, val = - 5\<rparr>], num_rows = 1, num_cols = 1\<rparr> 0 0 = - 5"
  by (simp add: add_def SparseMatrix_def set_element_def get_element_def)

theorem add_cancelling_values_witness:
  "\<exists>R. add \<lparr>head = [\<lparr>row = 0, col = 0, val = 5\<rparr>], num_rows = 1, num_cols = 1\<rparr>
       \<lparr>head = [\<lparr>row = 0, col = 0, val = - 5\<rparr>], num_rows = 1, num_cols = 1\<rparr> = Inr R \<and>
     get_element R 0 0 = 5"
  using add_cancelling_values by (simp add: get_element_def)

section \<open>Self-subtraction\<close>

lemma insert_node_at_end:
  "\<forall>y\<in>set ys. precedes y x \<Longrightarrow> insert_node x ys = ys @ [x]"
  by (induction ys) (auto simp: precedes_def)

lemma set_element_node:
  "val x \<noteq> 0 \<Longrightarrow>
   set_element m (row x) (col x) (val x) = m\<lparr>head := insert_node x (head m)\<rparr>"
  by (cases x; cases "head m") (auto simp: set_element_def Let_def)

lemma copy_loop_sorted:
  "strictly_increasing (head m @ xs) \<Longrightarrow> \<forall>n\<in>set xs. val n \<noteq> 0 \<Longrightarrow>
   copy_loop m xs = m\<lparr>head := head m @ xs\<rparr>"
proof (induction xs arbitrary: m)
  case Nil
  then show ?case by simp
next
  case (Cons x xs)
  from Cons.prems have "\<forall>y\<in>set (head m). precedes y x"
    by (auto simp: strictly_increasing_def sorted_wrt_append)
  then have "set_element m (row x) (col x) (val x) = m\<lparr>head := head m @ [x]\<rparr>"
    using Cons.prems(2) by (simp add: set_element_node insert_node_at_end)
  with Cons show ?case by simp
qed

lemma subtract_loop_same:
  "\<forall>n\<in>set xs. get_element m (row n) (col n) = val n \<Longrightarrow> subtract_loop m xs = m"
  by (induction xs) (simp_all add: set_element_def)

lemma strictly_increasing_distinct:
  "strictly_increasing xs \<Longrightarrow> distinct (map coord xs)"
  unfolding strictly_increasing_def
  by (induction xs) (auto simp: precedes_def coord_def)

lemma subtract_self_keeps_entries:
  assumes "strictly_increasing (head A)" "\<forall>n\<in>set (head A). val n \<noteq> 0"
  shows "subtract A A = Inr A"
proof -
  have "copy_loop (SparseMatrix (num_rows A) (num_cols A)) (head A) = A"
    using assms by (subst copy_loop_sorted) (simp_all add: SparseMatrix_def)
  moreover have "subtract_loop A (head A) = A"
    using assms(1)
    by (intro subtract_loop_same)
       (simp add: get_element_def lookup_present strictly_increasing_distinct)
  ultimately show ?thesis
    by (simp add: subtract_def)
qed

section \<open>Nodes are only ever added\<close>

lemma subseq_insert_node: "subseq xs (insert_node n xs)"
  by (induction xs) auto

lemma subseq_set_element: "subseq (head m) (head (set_element m r c v))"
  by (simp add: head_set_element subseq_insert_node)

lemma subseq_set_elements: "subseq (head m) (head (set_elements m calls))"
proof (induction m calls rule: set_elements.induct)
  case (1 self)
  then show ?case by simp
next
  case (2 self r c v calls)
  then show ?case
    using subseq_set_element [of self r c v] subseq_order.trans by fastforce
qed

text \<open>In the first model: a non-zero value adds exactly one node, the value 0 none, and the
  nodes stored before stay in their order.\<close>

lemma set_element_adds_one_node:
  "length (head (set_element m r c v)) =
     (if v = 0 then length (head m) else Suc (length (head m))) \<and>
   subseq (head m) (head (set_element m r c v)) \<and>
   subseq (head m) (head (set_elements m calls)) \<and>
   length (head m) \<le> length (head (set_elements m calls))"
proof -
  have "length (head (set_element m r c v)) =
      (if v = 0 then length (head m) else Suc (length (head m)))"
    by (simp add: head_set_element length_insert_node)
  moreover have "length (head m) \<le> length (head (set_elements m calls))"
    using subseq_set_elements [of m calls] by (rule list_emb_length)
  ultimately show ?thesis
    by (simp add: subseq_set_element subseq_set_elements)
qed

text \<open>
  C2 (the code departs from the claim): for the 1x1 matrix \<open>A\<close> with the single entry
  \<open>(0,0,5)\<close>, \<^verbatim>\<open>subtract(A, A)\<close> copies the entry, computes \<open>5 - 5 = 0\<close> and calls
  \<^verbatim>\<open>set_element(0, 0, 0)\<close>, which returns at once: the result still stores \<open>(0,0,5)\<close>.
  By \<open>subtract_self_keeps_entries\<close> the same happens for every matrix that meets the
  invariants: the result of \<^verbatim>\<open>subtract(A, A)\<close> is \<open>A\<close> again.
\<close>

theorem subtract_self_not_empty:
  "subtract \<lparr>head = [\<lparr>row = 0, col = 0, val = 5\<rparr>], num_rows = 1, num_cols = 1\<rparr>
            \<lparr>head = [\<lparr>row = 0, col = 0, val = 5\<rparr>], num_rows = 1, num_cols = 1\<rparr> =
     Inr \<lparr>head = [\<lparr>row = 0, col = 0, val = 5\<rparr>], num_rows = 1, num_cols = 1\<rparr>"
  by (simp add: subtract_def SparseMatrix_def set_element_def get_element_def)

theorem subtract_self_not_empty_witness:
  "\<exists>R. subtract \<lparr>head = [\<lparr>row = 0, col = 0, val = 5\<rparr>], num_rows = 1, num_cols = 1\<rparr>
            \<lparr>head = [\<lparr>row = 0, col = 0, val = 5\<rparr>], num_rows = 1, num_cols = 1\<rparr> = Inr R \<and>
     head R \<noteq> [] \<and> get_element R 0 0 = 5"
  using subtract_self_not_empty by (simp add: get_element_def)

text \<open>
  C8 (the code departs from the claim): in the scenario of the specification the result is
  1x1 and \<^verbatim>\<open>get_element(0,0)\<close> is 23, but the chain has two nodes: the partial sum
  \<open>(0,0,8)\<close> set first stays behind the node \<open>(0,0,23)\<close>, because \<^verbatim>\<open>set_element\<close> links a
  new node in front of the one with equal coordinates instead of replacing it.
\<close>

theorem multiply_scenario_keeps_partial_sum:
  "multiply
     \<lparr>head = [\<lparr>row = 0, col = 0, val = 2\<rparr>, \<lparr>row = 0, col = 1, val = 3\<rparr>],
      num_rows = 1, num_cols = 2\<rparr>
     \<lparr>head = [\<lparr>row = 0, col = 0, val = 4\<rparr>, \<lparr>row = 1, col = 0, val = 5\<rparr>],
      num_rows = 2, num_cols = 1\<rparr> =
   Inr \<lparr>head = [\<lparr>row = 0, col = 0, val = 23\<rparr>, \<lparr>row = 0, col = 0, val = 8\<rparr>],
        num_rows = 1, num_cols = 1\<rparr>"
  by (simp add: multiply_def SparseMatrix_def set_element_def get_element_def)

text \<open>
  C9 (the code departs from the claim): with \<open>A = {(0,0,1)}\<close> and \<open>B = {(0,0,2)}\<close>, both
  1x1, \<^verbatim>\<open>add(A, B)\<close> stores \<open>(0,0,3), (0,0,1)\<close> and \<^verbatim>\<open>add(B, A)\<close> stores
  \<open>(0,0,3), (0,0,2)\<close>: the node copied from the first operand stays behind the sum.
\<close>

theorem add_entries_depend_on_order:
  "add \<lparr>head = [\<lparr>row = 0, col = 0, val = 1\<rparr>], num_rows = 1, num_cols = 1\<rparr>
       \<lparr>head = [\<lparr>row = 0, col = 0, val = 2\<rparr>], num_rows = 1, num_cols = 1\<rparr> =
     Inr \<lparr>head = [\<lparr>row = 0, col = 0, val = 3\<rparr>, \<lparr>row = 0, col = 0, val = 1\<rparr>],
          num_rows = 1, num_cols = 1\<rparr> \<and>
   add \<lparr>head = [\<lparr>row = 0, col = 0, val = 2\<rparr>], num_rows = 1, num_cols = 1\<rparr>
       \<lparr>head = [\<lparr>row = 0, col = 0, val = 1\<rparr>], num_rows = 1, num_cols = 1\<rparr> =
     Inr \<lparr>head = [\<lparr>row = 0, col = 0, val = 3\<rparr>, \<lparr>row = 0, col = 0, val = 2\<rparr>],
          num_rows = 1, num_cols = 1\<rparr>"
  by (simp add: add_def SparseMatrix_def set_element_def get_element_def)

theorem add_entries_depend_on_order_witness:
  "add \<lparr>head = [\<lparr>row = 0, col = 0, val = 1\<rparr>], num_rows = 1, num_cols = 1\<rparr>
       \<lparr>head = [\<lparr>row = 0, col = 0, val = 2\<rparr>], num_rows = 1, num_cols = 1\<rparr> \<noteq>
   add \<lparr>head = [\<lparr>row = 0, col = 0, val = 2\<rparr>], num_rows = 1, num_cols = 1\<rparr>
       \<lparr>head = [\<lparr>row = 0, col = 0, val = 1\<rparr>], num_rows = 1, num_cols = 1\<rparr>"
  using add_entries_depend_on_order by simp

text \<open>
  C7, as stated, fails: the error is a \<^verbatim>\<open>ValueError\<close> with a fixed message. Operands of
  dimensions 1x1 and 2x2 and operands of dimensions 3x3 and 4x4 raise the very same
  value, so the error does not carry the dimensions.
\<close>

theorem dimension_error_has_no_dimensions:
  "add (SparseMatrix 1 1) (SparseMatrix 2 2) =
     Inl (ValueError ''Matrix dimensions must match for addition.'') \<and>
   add (SparseMatrix 3 3) (SparseMatrix 4 4) =
     Inl (ValueError ''Matrix dimensions must match for addition.'')"
  by (simp add: add_def SparseMatrix_def)

text \<open>
  C7, amended: \<^verbatim>\<open>add\<close> and \<^verbatim>\<open>subtract\<close> raise \<^verbatim>\<open>ValueError\<close> with their fixed message
  exactly when the row counts or the column counts of the operands differ, \<^verbatim>\<open>multiply\<close>
  exactly when \<^verbatim>\<open>self.num_cols\<close> differs from \<^verbatim>\<open>other.num_rows\<close>; otherwise they return a
  matrix, whose dimensions are those of \<^verbatim>\<open>self\<close> (for \<^verbatim>\<open>multiply\<close>: the rows of \<^verbatim>\<open>self\<close>
  and the columns of \<^verbatim>\<open>other\<close>).
\<close>

theorem dimension_check:
  "(if num_rows A \<noteq> num_rows B \<or> num_cols A \<noteq> num_cols B
    then add A B = Inl (ValueError ''Matrix dimensions must match for addition.'') \<and>
         subtract A B = Inl (ValueError ''Matrix dimensions must match for subtraction.'')
    else \<exists>R S. add A B = Inr R \<and> subtract A B = Inr S \<and>
           num_rows R = num_rows A \<and> num_cols R = num_cols A \<and>
           num_rows S = num_rows A \<and> num_cols S = num_cols A) \<and>
   (if num_cols A \<noteq> num_rows B
    then multiply A B = Inl (ValueError
      ''Number of columns in first matrix must be equal to the number of rows in second matrix for multiplication.'')
    else \<exists>R. multiply A B = Inr R \<and> num_rows R = num_rows A \<and> num_cols R = num_cols B)"
  by (simp add: add_def subtract_def multiply_def SparseMatrix_def Let_def)

theorem dimension_check_witness:
  "add (SparseMatrix 1 2) (SparseMatrix 2 1) =
     Inl (ValueError ''Matrix dimensions must match for addition.'') \<and>
   subtract (SparseMatrix 1 2) (SparseMatrix 2 1) =
     Inl (ValueError ''Matrix dimensions must match for subtraction.'') \<and>
   (\<exists>R. multiply (SparseMatrix 1 2) (SparseMatrix 2 1) = Inr R \<and>
        num_rows R = 1 \<and> num_cols R = 1) \<and>
   (\<exists>R S. add (SparseMatrix 2 2) (SparseMatrix 2 2) = Inr R \<and>
        subtract (SparseMatrix 2 2) (SparseMatrix 2 2) = Inr S \<and>
        num_rows R = 2 \<and> num_cols R = 2 \<and> num_rows S = 2 \<and> num_cols S = 2)"
  using dimension_check [of "SparseMatrix 1 2" "SparseMatrix 2 1"]
    dimension_check [of "SparseMatrix 2 2" "SparseMatrix 2 2"]
  by (simp add: SparseMatrix_def)

section \<open>Chains in the store\<close>

lemma chain_None [simp]: "chain s None as \<longleftrightarrow> as = []"
  by (cases as) auto

lemma chain_Some: "chain s (Some a) as \<longleftrightarrow>
   (\<exists>bs. as = a # bs \<and> a < length (nodes s) \<and> chain s (next_of (nodes s ! a)) bs)"
  by (cases as) auto

lemma chain_unique: "chain s p as \<Longrightarrow> chain s p bs \<Longrightarrow> as = bs"
  by (induction as arbitrary: p bs) (auto simp: chain_Some)

lemma chain_bound: "chain s p as \<Longrightarrow> a \<in> set as \<Longrightarrow> a < length (nodes s)"
  by (induction as arbitrary: p) auto

lemma chain_append:
  "chain s p (as @ bs) \<Longrightarrow> \<exists>q. chain s q bs"
  by (induction as arbitrary: p) auto

lemma chain_head_notin_tail:
  assumes "chain s (next_of (nodes s ! a)) as"
  shows "a \<notin> set as"
proof
  assume "a \<in> set as"
  then obtain xs ys where as: "as = xs @ a # ys"
    by (auto simp: in_set_conv_decomp)
  with assms have "\<exists>q. chain s q (a # ys)"
    by (auto dest: chain_append)
  then have "chain s (next_of (nodes s ! a)) ys" by auto
  with assms have "as = ys" by (blast intro: chain_unique)
  with as show False by simp
qed

lemma chain_distinct: "chain s p as \<Longrightarrow> distinct as"
  by (induction as arbitrary: p) (auto dest: chain_head_notin_tail)

lemma find_st_chain:
  "chain s p as \<Longrightarrow> find_st s p r c = Some (lookup (contents s as) r c)"
proof (induction as arbitrary: p)
  case Nil
  then show ?case by (simp add: find_st.simps contents_def)
next
  case (Cons a as)
  then show ?case
    by (subst find_st.simps) (auto simp: node_at_def contents_def abs_node_def)
qed

lemma chain_cong:
  "chain s p as \<Longrightarrow> length (nodes s) \<le> length (nodes s') \<Longrightarrow>
   (\<forall>a\<in>set as. nodes s' ! a = nodes s ! a) \<Longrightarrow> chain s' p as"
  by (induction as arbitrary: p) auto

lemma chain_suffix:
  "chain s p (xs @ ys) \<Longrightarrow>
   chain s (if xs = [] then p else next_of (nodes s ! last xs)) ys"
  by (induction xs arbitrary: p) auto

lemma chain_start:
  "chain s p ys \<Longrightarrow> p = (case ys of [] \<Rightarrow> None | b # _ \<Rightarrow> Some b)"
  by (cases ys) auto

lemma chain_relink:
  "chain s p (xs @ ys) \<Longrightarrow> xs \<noteq> [] \<Longrightarrow>
   \<forall>a\<in>set (butlast xs). nodes s' ! a = nodes s ! a \<Longrightarrow>
   length (nodes s) \<le> length (nodes s') \<Longrightarrow>
   next_of (nodes s' ! last xs) = q \<Longrightarrow> chain s' q zs \<Longrightarrow>
   chain s' p (xs @ zs)"
proof (induction xs arbitrary: p)
  case Nil
  then show ?case by simp
next
  case (Cons a xs)
  show ?case
  proof (cases "xs = []")
    case True
    with Cons.prems show ?thesis by auto
  next
    case False
    with Cons.prems have "chain s' (next_of (nodes s ! a)) (xs @ zs)"
      by (intro Cons.IH) auto
    with False Cons.prems show ?thesis by auto
  qed
qed

lemma scan_chain:
  "chain s p bs \<Longrightarrow>
   scan s r c prev p =
     Some (if takeWhile (ordered_before s r c) bs = [] then prev
           else Some (last (takeWhile (ordered_before s r c) bs)),
           case dropWhile (ordered_before s r c) bs of [] \<Rightarrow> None | b # _ \<Rightarrow> Some b)"
proof (induction bs arbitrary: prev p)
  case Nil
  then show ?case by (simp add: scan.simps)
next
  case (Cons a bs)
  then have p: "p = Some a" "a < length (nodes s)" "chain s (next_of (nodes s ! a)) bs"
    by auto
  show ?case
  proof (cases "ordered_before s r c a")
    case True
    then have "scan s r c prev p = scan s r c (Some a) (next_of (nodes s ! a))"
      using p by (subst scan.simps) (simp add: node_at_def ordered_before_def)
    with True Cons.IH [OF p(3), of "Some a"] show ?thesis by simp
  next
    case False
    then have "scan s r c prev p = Some (prev, Some a)"
      using p by (subst scan.simps) (auto simp add: node_at_def ordered_before_def)
    with False show ?thesis by simp
  qed
qed

lemma insert_node_split:
  "insert_node x zs = takeWhile (\<lambda>n. precedes n x) zs @ x # dropWhile (\<lambda>n. precedes n x) zs"
  by (induction zs) (auto simp: precedes_def)

section \<open>set_element on the store\<close>

lemma ordered_before_cong:
  "nodes s' ! a = nodes s ! a \<Longrightarrow> ordered_before s' r c a = ordered_before s r c a"
  by (simp add: ordered_before_def)

lemma set_element_st_eq:
  assumes m: "m < length (matrices s)"
    and ch: "chain s (head_of (matrices s ! m)) bs"
    and v: "v \<noteq> 0"
  shows "set_element_st s m r c v = Some (linked_in s m r c v bs)"
proof -
  define N where "N = \<lparr>row_of = r, col_of = c, value_of = v, next_of = None\<rparr>"
  define s1 where "s1 = s\<lparr>nodes := nodes s @ [N]\<rparr>"
  define new_node where "new_node = length (nodes s)"
  define xs where "xs = takeWhile (ordered_before s r c) bs"
  define ys where "ys = dropWhile (ordered_before s r c) bs"
  define cur where "cur = (case ys of [] \<Rightarrow> None | b # _ \<Rightarrow> Some b)"
  have new: "new_Node s r c v = (s1, new_node)"
    by (simp add: new_Node_def s1_def N_def new_node_def)
  have m1: "matrix_at s1 m = Some (matrices s ! m)"
    using m by (simp add: matrix_at_def s1_def)
  have bound: "a < length (nodes s)" if "a \<in> set bs" for a
    using chain_bound [OF ch that] .
  have old: "nodes s1 ! a = nodes s ! a" if "a \<in> set bs" for a
    using bound [OF that] by (simp add: s1_def nth_append)
  have ch1: "chain s1 (head_of (matrices s ! m)) bs"
    by (rule chain_cong [OF ch]) (simp_all add: old, simp add: s1_def)
  have tw: "takeWhile (ordered_before s1 r c) bs = xs"
    unfolding xs_def by (rule takeWhile_cong) (simp_all add: ordered_before_def old)
  have dw: "dropWhile (ordered_before s1 r c) bs = ys"
    unfolding ys_def by (rule dropWhile_cong) (simp_all add: ordered_before_def old)
  have sc: "scan s1 r c None (head_of (matrices s ! m)) =
      Some (if xs = [] then None else Some (last xs), cur)"
    using scan_chain [OF ch1, of r c None] by (simp add: tw dw cur_def)
  have lin: "linked_in s m r c v bs =
      set_next (if xs = [] then set_head s1 m (Some new_node)
                else set_next s1 (last xs) (Some new_node)) new_node cur"
    by (simp add: linked_in_def Let_def xs_def ys_def cur_def s1_def N_def new_node_def)
  show ?thesis
  proof (cases "head_of (matrices s ! m)")
    case None
    with ch have "bs = []" by simp
    then have e: "xs = []" "cur = None" by (simp_all add: xs_def ys_def cur_def)
    have "set_next (set_head s1 m (Some new_node)) new_node None = set_head s1 m (Some new_node)"
      by (simp add: set_next_def set_head_def s1_def new_node_def N_def)
    with None v new m1 e lin show ?thesis
      by (simp add: set_element_st_def)
  next
    case (Some h)
    with v new m1 sc lin show ?thesis
      by (simp add: set_element_st_def Let_def)
  qed
qed

lemma linked_in_lengths:
  "length (nodes (linked_in s m r c v bs)) = Suc (length (nodes s))"
  "length (matrices (linked_in s m r c v bs)) = length (matrices s)"
  by (simp_all add: linked_in_def Let_def set_next_def set_head_def)

lemma takeWhile_last_bound:
  "\<forall>a\<in>set bs. a < n \<Longrightarrow> takeWhile P bs \<noteq> [] \<Longrightarrow> last (takeWhile P bs) < n"
  by (meson last_in_set set_takeWhileD)

lemma linked_in_new:
  assumes "\<forall>a\<in>set bs. a < length (nodes s)"
  shows "nodes (linked_in s m r c v bs) ! length (nodes s) =
     \<lparr>row_of = r, col_of = c, value_of = v,
      next_of = (case dropWhile (ordered_before s r c) bs of [] \<Rightarrow> None | b # _ \<Rightarrow> Some b)\<rparr>"
  using takeWhile_last_bound [OF assms, of "ordered_before s r c"]
  by (auto simp add: linked_in_def Let_def set_next_def set_head_def nth_append)

lemma linked_in_old:
  assumes "a < length (nodes s)"
  shows "nodes (linked_in s m r c v bs) ! a =
     (if takeWhile (ordered_before s r c) bs \<noteq> [] \<and> a = last (takeWhile (ordered_before s r c) bs)
      then (nodes s ! a)\<lparr>next_of := Some (length (nodes s))\<rparr> else nodes s ! a)"
  using assms
  by (simp add: linked_in_def Let_def set_next_def set_head_def nth_append nth_list_update)

lemma linked_in_matrices:
  assumes "k < length (matrices s)"
  shows "matrices (linked_in s m r c v bs) ! k =
     (if takeWhile (ordered_before s r c) bs = [] \<and> k = m
      then (matrices s ! k)\<lparr>head_of := Some (length (nodes s))\<rparr> else matrices s ! k)"
  using assms
  by (simp add: linked_in_def Let_def set_next_def set_head_def nth_list_update)

lemma linked_in_abs_node:
  "a < length (nodes s) \<Longrightarrow>
   abs_node (nodes (linked_in s m r c v bs) ! a) = abs_node (nodes s ! a)"
  by (simp add: linked_in_old abs_node_def)

lemma linked_in_chain:
  assumes m: "m < length (matrices s)"
    and ch: "chain s (head_of (matrices s ! m)) bs"
  shows "chain (linked_in s m r c v bs) (head_of (matrices (linked_in s m r c v bs) ! m))
           (takeWhile (ordered_before s r c) bs @ length (nodes s) #
            dropWhile (ordered_before s r c) bs)"
proof -
  define s' where "s' = linked_in s m r c v bs"
  define new_node where "new_node = length (nodes s)"
  define xs where "xs = takeWhile (ordered_before s r c) bs"
  define ys where "ys = dropWhile (ordered_before s r c) bs"
  define cur where "cur = (case ys of [] \<Rightarrow> None | b # _ \<Rightarrow> Some b)"
  have bs: "bs = xs @ ys" by (simp add: xs_def ys_def)
  have dist: "distinct (xs @ ys)" using chain_distinct [OF ch] bs by simp
  have bound: "a < new_node" if "a \<in> set bs" for a
    using chain_bound [OF ch that] by (simp add: new_node_def)
  have len: "length (nodes s) \<le> length (nodes s')"
    by (simp add: s'_def linked_in_lengths)
  have "chain s (if xs = [] then head_of (matrices s ! m) else next_of (nodes s ! last xs)) ys"
    using ch unfolding bs by (rule chain_suffix)
  then have cur: "chain s cur ys"
    and cur_eq: "(if xs = [] then head_of (matrices s ! m) else next_of (nodes s ! last xs)) = cur"
    using chain_start unfolding cur_def by fastforce+
  have "nodes s' ! a = nodes s ! a" if "a \<in> set ys" for a
  proof -
    from that have "a < length (nodes s)" using bound bs by (simp add: new_node_def)
    moreover have "a \<noteq> last xs" if "xs \<noteq> []"
      using dist that \<open>a \<in> set ys\<close> last_in_set by fastforce
    ultimately show ?thesis
      by (auto simp: s'_def linked_in_old xs_def)
  qed
  then have "\<forall>a\<in>set ys. nodes s' ! a = nodes s ! a" by simp
  with cur len have "chain s' cur ys"
    by (rule chain_cong)
  moreover have "nodes s' ! new_node =
      \<lparr>row_of = r, col_of = c, value_of = v, next_of = cur\<rparr>"
    using bound by (simp add: s'_def new_node_def linked_in_new cur_def ys_def)
  ultimately have tail: "chain s' (Some new_node) (new_node # ys)"
    by (simp add: s'_def linked_in_lengths new_node_def)
  have "chain s' (head_of (matrices s' ! m)) (xs @ new_node # ys)"
  proof (cases "xs = []")
    case True
    with m tail show ?thesis
      by (simp add: s'_def linked_in_matrices xs_def new_node_def)
  next
    case False
    have hd: "head_of (matrices s' ! m) = head_of (matrices s ! m)"
      using m False by (simp add: s'_def linked_in_matrices xs_def)
    have "last xs \<in> set bs" using False bs by simp
    then have "last xs < length (nodes s)" using bound by (simp add: new_node_def)
    then have nx: "next_of (nodes s' ! last xs) = Some new_node"
      using False by (simp add: s'_def linked_in_old xs_def new_node_def)
    have keep: "\<forall>a\<in>set (butlast xs). nodes s' ! a = nodes s ! a"
    proof
      fix a assume a: "a \<in> set (butlast xs)"
      then have "a \<in> set bs" using bs by (auto dest: in_set_butlastD)
      then have "a < length (nodes s)" using bound by (simp add: new_node_def)
      moreover have "a \<noteq> last xs"
      proof -
        from False have "xs = butlast xs @ [last xs]" by simp
        with dist have "distinct (butlast xs @ [last xs])" by (metis distinct_append)
        with a show ?thesis by auto
      qed
      ultimately show "nodes s' ! a = nodes s ! a"
        by (simp add: s'_def linked_in_old xs_def)
    qed
    from ch have "chain s (head_of (matrices s ! m)) (xs @ ys)" by (simp add: bs)
    from chain_relink [OF this False keep len nx tail] hd show ?thesis by simp
  qed
  then show ?thesis
    by (simp add: s'_def xs_def ys_def new_node_def)
qed

section \<open>The store model refines the first model\<close>

lemma extends_refl: "extends n0 result s s"
  by (simp add: extends_def)

lemma extends_trans: "extends n0 result s s1 \<Longrightarrow> extends n0 result s1 s2 \<Longrightarrow> extends n0 result s s2"
  by (auto simp: extends_def)

lemma ordered_before_abs:
  "ordered_before s r c a = precedes (abs_node (nodes s ! a)) \<lparr>row = r, col = c, val = v\<rparr>"
  by (simp add: ordered_before_def precedes_def abs_node_def)

lemma linked_in_contents:
  assumes bound: "\<forall>a\<in>set bs. a < length (nodes s)"
  shows "contents (linked_in s m r c v bs)
           (takeWhile (ordered_before s r c) bs @ length (nodes s) #
            dropWhile (ordered_before s r c) bs) =
         insert_node \<lparr>row = r, col = c, val = v\<rparr> (contents s bs)"
proof -
  let ?s' = "linked_in s m r c v bs"
  let ?P = "ordered_before s r c"
  let ?x = "\<lparr>row = r, col = c, val = v\<rparr>"
  have old: "map (\<lambda>a. abs_node (nodes ?s' ! a)) zs = map (\<lambda>a. abs_node (nodes s ! a)) zs"
    if "set zs \<subseteq> set bs" for zs
    using that bound by (intro map_cong) (auto simp: linked_in_abs_node)
  have P: "?P = (\<lambda>n. precedes n ?x) \<circ> (\<lambda>a. abs_node (nodes s ! a))"
    by (auto simp: ordered_before_abs [of s r c _ v])
  have "contents ?s' (takeWhile ?P bs @ length (nodes s) # dropWhile ?P bs) =
      map (\<lambda>a. abs_node (nodes s ! a)) (takeWhile ?P bs) @ ?x #
      map (\<lambda>a. abs_node (nodes s ! a)) (dropWhile ?P bs)"
  proof -
    have tw: "set (takeWhile ?P bs) \<subseteq> set bs"
      by (auto dest: set_takeWhileD)
    have dw: "set (dropWhile ?P bs) \<subseteq> set bs"
      by (auto dest: set_dropWhileD)
    have "abs_node (nodes ?s' ! length (nodes s)) = ?x"
      using bound by (simp add: linked_in_new abs_node_def)
    then show ?thesis
      by (simp add: contents_def old [OF tw] old [OF dw])
  qed
  also have "\<dots> = insert_node ?x (contents s bs)"
    unfolding insert_node_split contents_def takeWhile_map dropWhile_map P ..
  finally show ?thesis .
qed

lemma set_element_st_refines:
  assumes rep: "represents s m bs M"
    and fresh: "\<forall>b\<in>set bs. n0 \<le> b"
    and n0: "n0 \<le> length (nodes s)"
  shows "\<exists>s' bs'. set_element_st s m r c v = Some s' \<and> represents s' m bs' (set_element M r c v) \<and>
           (\<forall>b\<in>set bs'. n0 \<le> b) \<and> extends n0 m s s'"
proof (cases "v = 0")
  case True
  then have "set_element_st s m r c v = Some s" "set_element M r c v = M"
    by (simp_all add: set_element_st_def set_element_def)
  with rep fresh extends_refl [of n0 m s] show ?thesis
    by (intro exI [of _ s] exI [of _ bs]) simp
next
  case False
  from rep have m: "m < length (matrices s)" and ch: "chain s (head_of (matrices s ! m)) bs"
    and M: "M = \<lparr>head = contents s bs, num_rows = num_rows_of (matrices s ! m),
          num_cols = num_cols_of (matrices s ! m)\<rparr>"
    by (simp_all add: represents_def)
  let ?s' = "linked_in s m r c v bs"
  let ?bs' = "takeWhile (ordered_before s r c) bs @ length (nodes s) #
            dropWhile (ordered_before s r c) bs"
  have bound: "\<forall>a\<in>set bs. a < length (nodes s)"
    using chain_bound [OF ch] by blast
  have 1: "set_element_st s m r c v = Some ?s'"
    using m ch False by (rule set_element_st_eq)
  have dims: "num_rows_of (matrices ?s' ! m) = num_rows_of (matrices s ! m)"
    "num_cols_of (matrices ?s' ! m) = num_cols_of (matrices s ! m)"
    using m by (simp_all add: linked_in_matrices)
  have hd: "head (set_element M r c v) = contents ?s' ?bs'"
    using False linked_in_contents [OF bound, of m r c v]
    by (simp add: head_set_element M)
  have "set_element M r c v =
      \<lparr>head = contents ?s' ?bs', num_rows = num_rows_of (matrices ?s' ! m),
       num_cols = num_cols_of (matrices ?s' ! m)\<rparr>"
    using hd by (simp add: dims M)
  with m linked_in_chain [OF m ch, of r c v]
  have 2: "represents ?s' m ?bs' (set_element M r c v)"
    unfolding represents_def by (simp add: linked_in_lengths)
  have 3: "\<forall>b\<in>set ?bs'. n0 \<le> b"
    using fresh n0 by (auto dest: set_takeWhileD set_dropWhileD)
  have old_nodes: "nodes ?s' ! a = nodes s ! a" if a: "a < n0" for a
  proof -
    from a n0 have "a < length (nodes s)" by simp
    moreover have "a \<notin> set bs" using a fresh by auto
    then have "takeWhile (ordered_before s r c) bs \<noteq> [] \<Longrightarrow>
        a \<noteq> last (takeWhile (ordered_before s r c) bs)"
      using last_in_set set_takeWhileD by metis
    ultimately show ?thesis
      by (auto simp: linked_in_old)
  qed
  have old_matrices: "matrices ?s' ! k = matrices s ! k"
    if "k < length (matrices s)" "k \<noteq> m" for k
    using that by (simp add: linked_in_matrices)
  have 4: "extends n0 m s ?s'"
    unfolding extends_def using old_nodes old_matrices
    by (simp add: linked_in_lengths)
  show ?thesis
    by (rule exI [of _ ?s'], rule exI [of _ ?bs']) (intro conjI 1 2 3 4)
qed

lemma get_element_st_refines:
  assumes "represents s m bs M"
  shows "get_element_st s m r c = Some (get_element M r c)"
proof -
  from assms have m: "m < length (matrices s)" and ch: "chain s (head_of (matrices s ! m)) bs"
    and M: "head M = contents s bs"
    by (simp_all add: represents_def)
  from find_st_chain [OF ch, of r c] m M show ?thesis
    by (simp add: get_element_st_def matrix_at_def get_element_def)
qed

lemma extends_keeps_chain:
  assumes "extends n0 result s s'" "chain s p as" "\<forall>a\<in>set as. a < n0"
  shows "chain s' p as" "contents s' as = contents s as"
proof -
  from assms(1,3) have same: "\<forall>a\<in>set as. nodes s' ! a = nodes s ! a"
    and len: "length (nodes s) \<le> length (nodes s')"
    by (simp_all add: extends_def)
  from assms(2) len same show "chain s' p as" by (rule chain_cong)
  from same show "contents s' as = contents s as"
    by (simp add: contents_def)
qed

lemma extends_node_at:
  assumes "extends n0 result s s'" "a < n0" "a < length (nodes s)"
  shows "node_at s' a = Some (nodes s ! a)"
  using assms by (simp add: extends_def node_at_def)

lemma extends_length: "extends n0 result s s' \<Longrightarrow> n0 \<le> length (nodes s) \<Longrightarrow> n0 \<le> length (nodes s')"
  by (simp add: extends_def)

lemma copy_loop_st_refines:
  assumes "chain s p as" "\<forall>a\<in>set as. a < n0" "n0 \<le> length (nodes s)"
    and "represents s result cs R" "\<forall>c\<in>set cs. n0 \<le> c"
  shows "\<exists>s' cs'. copy_loop_st s result p = Some s' \<and>
           represents s' result cs' (copy_loop R (contents s as)) \<and>
           (\<forall>c\<in>set cs'. n0 \<le> c) \<and> extends n0 result s s'"
  using assms
proof (induction as arbitrary: s p cs R)
  case Nil
  then have "copy_loop_st s result p = Some s"
    by (subst copy_loop_st.simps) simp
  with Nil extends_refl [of n0 result s] show ?case
    by (intro exI [of _ s] exI [of _ cs]) (simp add: contents_def)
next
  case (Cons a as)
  let ?n = "nodes s ! a"
  from Cons.prems(1) have p: "p = Some a" and a: "a < length (nodes s)"
    and rest: "chain s (next_of ?n) as"
    by simp_all
  from Cons.prems(2) have a0: "a < n0" and as0: "\<forall>a\<in>set as. a < n0" by simp_all
  from set_element_st_refines [OF Cons.prems(4,5,3), of "row_of ?n" "col_of ?n" "value_of ?n"]
  obtain s1 cs1 where
    set1: "set_element_st s result (row_of ?n) (col_of ?n) (value_of ?n) = Some s1"
    and rep1: "represents s1 result cs1 (set_element R (row_of ?n) (col_of ?n) (value_of ?n))"
    and fresh1: "\<forall>c\<in>set cs1. n0 \<le> c" and ext1: "extends n0 result s s1"
    by blast
  have node1: "node_at s1 a = Some ?n"
    using ext1 a0 a by (rule extends_node_at)
  have rest1: "chain s1 (next_of ?n) as" and cont1: "contents s1 as = contents s as"
    using extends_keeps_chain [OF ext1 rest as0] by simp_all
  have len1: "n0 \<le> length (nodes s1)"
    using ext1 Cons.prems(3) by (rule extends_length)
  from Cons.IH [OF rest1 as0 len1 rep1 fresh1]
  obtain s' cs' where
    loop: "copy_loop_st s1 result (next_of ?n) = Some s'"
    and rep': "represents s' result cs'
        (copy_loop (set_element R (row_of ?n) (col_of ?n) (value_of ?n)) (contents s1 as))"
    and fresh': "\<forall>c\<in>set cs'. n0 \<le> c" and ext': "extends n0 result s1 s'"
    by blast
  have "copy_loop_st s result p = Some s'"
    using p a set1 node1 loop
    by (subst copy_loop_st.simps) (simp add: node_at_def)
  moreover have "copy_loop R (contents s (a # as)) =
      copy_loop (set_element R (row_of ?n) (col_of ?n) (value_of ?n)) (contents s as)"
    by (simp add: contents_def abs_node_def)
  with rep' cont1 have "represents s' result cs' (copy_loop R (contents s (a # as)))"
    by simp
  moreover note fresh' extends_trans [OF ext1 ext']
  ultimately show ?case by blast
qed

lemma add_loop_st_refines:
  assumes "chain s p as" "\<forall>a\<in>set as. a < n0" "n0 \<le> length (nodes s)"
    and "represents s result cs R" "\<forall>c\<in>set cs. n0 \<le> c"
  shows "\<exists>s' cs'. add_loop_st s result p = Some s' \<and>
           represents s' result cs' (add_loop R (contents s as)) \<and>
           (\<forall>c\<in>set cs'. n0 \<le> c) \<and> extends n0 result s s'"
  using assms
proof (induction as arbitrary: s p cs R)
  case Nil
  then have "add_loop_st s result p = Some s"
    by (subst add_loop_st.simps) simp
  with Nil extends_refl [of n0 result s] show ?case
    by (intro exI [of _ s] exI [of _ cs]) (simp add: contents_def)
next
  case (Cons a as)
  let ?n = "nodes s ! a"
  let ?v = "get_element R (row_of ?n) (col_of ?n) + value_of ?n"
  from Cons.prems(1) have p: "p = Some a" and a: "a < length (nodes s)"
    and rest: "chain s (next_of ?n) as"
    by simp_all
  from Cons.prems(2) have a0: "a < n0" and as0: "\<forall>a\<in>set as. a < n0" by simp_all
  have get: "get_element_st s result (row_of ?n) (col_of ?n) =
      Some (get_element R (row_of ?n) (col_of ?n))"
    using Cons.prems(4) by (rule get_element_st_refines)
  from set_element_st_refines [OF Cons.prems(4,5,3), of "row_of ?n" "col_of ?n" ?v]
  obtain s1 cs1 where
    set1: "set_element_st s result (row_of ?n) (col_of ?n) ?v = Some s1"
    and rep1: "represents s1 result cs1 (set_element R (row_of ?n) (col_of ?n) ?v)"
    and fresh1: "\<forall>c\<in>set cs1. n0 \<le> c" and ext1: "extends n0 result s s1"
    by blast
  have node1: "node_at s1 a = Some ?n"
    using ext1 a0 a by (rule extends_node_at)
  have rest1: "chain s1 (next_of ?n) as" and cont1: "contents s1 as = contents s as"
    using extends_keeps_chain [OF ext1 rest as0] by simp_all
  have len1: "n0 \<le> length (nodes s1)"
    using ext1 Cons.prems(3) by (rule extends_length)
  from Cons.IH [OF rest1 as0 len1 rep1 fresh1]
  obtain s' cs' where
    loop: "add_loop_st s1 result (next_of ?n) = Some s'"
    and rep': "represents s' result cs'
        (add_loop (set_element R (row_of ?n) (col_of ?n) ?v) (contents s1 as))"
    and fresh': "\<forall>c\<in>set cs'. n0 \<le> c" and ext': "extends n0 result s1 s'"
    by blast
  have "add_loop_st s result p = Some s'"
    using p a get set1 node1 loop
    by (subst add_loop_st.simps) (simp add: node_at_def)
  moreover have "add_loop R (contents s (a # as)) =
      add_loop (set_element R (row_of ?n) (col_of ?n) ?v) (contents s as)"
    by (simp add: contents_def abs_node_def)
  with rep' cont1 have "represents s' result cs' (add_loop R (contents s (a # as)))"
    by simp
  moreover note fresh' extends_trans [OF ext1 ext']
  ultimately show ?case by blast
qed

lemma subtract_loop_st_refines:
  assumes "chain s p as" "\<forall>a\<in>set as. a < n0" "n0 \<le> length (nodes s)"
    and "represents s result cs R" "\<forall>c\<in>set cs. n0 \<le> c"
  shows "\<exists>s' cs'. subtract_loop_st s result p = Some s' \<and>
           represents s' result cs' (subtract_loop R (contents s as)) \<and>
           (\<forall>c\<in>set cs'. n0 \<le> c) \<and> extends n0 result s s'"
  using assms
proof (induction as arbitrary: s p cs R)
  case Nil
  then have "subtract_loop_st s result p = Some s"
    by (subst subtract_loop_st.simps) simp
  with Nil extends_refl [of n0 result s] show ?case
    by (intro exI [of _ s] exI [of _ cs]) (simp add: contents_def)
next
  case (Cons a as)
  let ?n = "nodes s ! a"
  let ?v = "get_element R (row_of ?n) (col_of ?n) - value_of ?n"
  from Cons.prems(1) have p: "p = Some a" and a: "a < length (nodes s)"
    and rest: "chain s (next_of ?n) as"
    by simp_all
  from Cons.prems(2) have a0: "a < n0" and as0: "\<forall>a\<in>set as. a < n0" by simp_all
  have get: "get_element_st s result (row_of ?n) (col_of ?n) =
      Some (get_element R (row_of ?n) (col_of ?n))"
    using Cons.prems(4) by (rule get_element_st_refines)
  from set_element_st_refines [OF Cons.prems(4,5,3), of "row_of ?n" "col_of ?n" ?v]
  obtain s1 cs1 where
    set1: "set_element_st s result (row_of ?n) (col_of ?n) ?v = Some s1"
    and rep1: "represents s1 result cs1 (set_element R (row_of ?n) (col_of ?n) ?v)"
    and fresh1: "\<forall>c\<in>set cs1. n0 \<le> c" and ext1: "extends n0 result s s1"
    by blast
  have node1: "node_at s1 a = Some ?n"
    using ext1 a0 a by (rule extends_node_at)
  have rest1: "chain s1 (next_of ?n) as" and cont1: "contents s1 as = contents s as"
    using extends_keeps_chain [OF ext1 rest as0] by simp_all
  have len1: "n0 \<le> length (nodes s1)"
    using ext1 Cons.prems(3) by (rule extends_length)
  from Cons.IH [OF rest1 as0 len1 rep1 fresh1]
  obtain s' cs' where
    loop: "subtract_loop_st s1 result (next_of ?n) = Some s'"
    and rep': "represents s' result cs'
        (subtract_loop (set_element R (row_of ?n) (col_of ?n) ?v) (contents s1 as))"
    and fresh': "\<forall>c\<in>set cs'. n0 \<le> c" and ext': "extends n0 result s1 s'"
    by blast
  have "subtract_loop_st s result p = Some s'"
    using p a get set1 node1 loop
    by (subst subtract_loop_st.simps) (simp add: node_at_def)
  moreover have "subtract_loop R (contents s (a # as)) =
      subtract_loop (set_element R (row_of ?n) (col_of ?n) ?v) (contents s as)"
    by (simp add: contents_def abs_node_def)
  with rep' cont1 have "represents s' result cs' (subtract_loop R (contents s (a # as)))"
    by simp
  moreover note fresh' extends_trans [OF ext1 ext']
  ultimately show ?case by blast
qed

lemma multiply_inner_st_refines:
  assumes "chain s p bs" "\<forall>b\<in>set bs. b < n0" "n0 \<le> length (nodes s)"
    and "represents s result cs R" "\<forall>c\<in>set cs. n0 \<le> c" and "a < n0"
  shows "\<exists>s' cs'. multiply_inner_st s result p a = Some s' \<and>
           represents s' result cs' (multiply_inner R (abs_node (nodes s ! a)) (contents s bs)) \<and>
           (\<forall>c\<in>set cs'. n0 \<le> c) \<and> extends n0 result s s'"
  using assms
proof (induction bs arbitrary: s p cs R)
  case Nil
  then have "multiply_inner_st s result p a = Some s"
    by (subst multiply_inner_st.simps) simp
  with Nil extends_refl [of n0 result s] show ?case
    by (intro exI [of _ s] exI [of _ cs]) (simp add: contents_def)
next
  case (Cons b bs)
  let ?na = "nodes s ! a"
  let ?nb = "nodes s ! b"
  let ?v = "get_element R (row_of ?na) (col_of ?nb) + value_of ?na * value_of ?nb"
  let ?R1 = "if col_of ?na = row_of ?nb then set_element R (row_of ?na) (col_of ?nb) ?v else R"
  from Cons.prems(1) have p: "p = Some b" and b: "b < length (nodes s)"
    and rest: "chain s (next_of ?nb) bs"
    by simp_all
  from Cons.prems(2) have b0: "b < n0" and bs0: "\<forall>b\<in>set bs. b < n0" by simp_all
  from Cons.prems(3,6) have a: "a < length (nodes s)" by simp
  have get: "get_element_st s result (row_of ?na) (col_of ?nb) =
      Some (get_element R (row_of ?na) (col_of ?nb))"
    using Cons.prems(4) by (rule get_element_st_refines)
  have "\<exists>s1 cs1.
      (if col_of ?na = row_of ?nb
       then set_element_st s result (row_of ?na) (col_of ?nb) ?v else Some s) = Some s1 \<and>
      represents s1 result cs1 ?R1 \<and> (\<forall>c\<in>set cs1. n0 \<le> c) \<and> extends n0 result s s1"
  proof (cases "col_of ?na = row_of ?nb")
    case True
    with set_element_st_refines [OF Cons.prems(4,5,3), of "row_of ?na" "col_of ?nb" ?v]
    show ?thesis by simp
  next
    case False
    with Cons.prems(4,5) extends_refl [of n0 result s] show ?thesis
      by (intro exI [of _ s] exI [of _ cs]) simp
  qed
  then obtain s1 cs1 where
    set1: "(if col_of ?na = row_of ?nb
       then set_element_st s result (row_of ?na) (col_of ?nb) ?v else Some s) = Some s1"
    and rep1: "represents s1 result cs1 ?R1"
    and fresh1: "\<forall>c\<in>set cs1. n0 \<le> c" and ext1: "extends n0 result s s1"
    by blast
  have node1: "node_at s1 b = Some ?nb"
    using ext1 b0 b by (rule extends_node_at)
  have a1: "nodes s1 ! a = ?na"
    using ext1 Cons.prems(6) by (simp add: extends_def)
  have rest1: "chain s1 (next_of ?nb) bs" and cont1: "contents s1 bs = contents s bs"
    using extends_keeps_chain [OF ext1 rest bs0] by simp_all
  have len1: "n0 \<le> length (nodes s1)"
    using ext1 Cons.prems(3) by (rule extends_length)
  from Cons.IH [OF rest1 bs0 len1 rep1 fresh1 Cons.prems(6)]
  obtain s' cs' where
    loop: "multiply_inner_st s1 result (next_of ?nb) a = Some s'"
    and rep': "represents s' result cs' (multiply_inner ?R1 (abs_node (nodes s1 ! a)) (contents s1 bs))"
    and fresh': "\<forall>c\<in>set cs'. n0 \<le> c" and ext': "extends n0 result s1 s'"
    by blast
  have "multiply_inner_st s result p a = Some s'"
  proof (cases "col_of ?na = row_of ?nb")
    case True
    with p a b get set1 node1 loop show ?thesis
      by (subst multiply_inner_st.simps) (simp add: node_at_def)
  next
    case False
    with p a b set1 node1 loop show ?thesis
      by (subst multiply_inner_st.simps) (simp add: node_at_def)
  qed
  moreover have "multiply_inner R (abs_node ?na) (contents s (b # bs)) =
      multiply_inner ?R1 (abs_node ?na) (contents s bs)"
    by (simp add: contents_def abs_node_def)
  with rep' cont1 a1
  have "represents s' result cs' (multiply_inner R (abs_node ?na) (contents s (b # bs)))"
    by simp
  moreover note fresh' extends_trans [OF ext1 ext']
  ultimately show ?case by blast
qed

lemma multiply_outer_st_refines:
  assumes "chain s p as" "\<forall>a\<in>set as. a < n0" "n0 \<le> length (nodes s)"
    and "represents s result cs R" "\<forall>c\<in>set cs. n0 \<le> c"
    and "other < length (matrices s)" "other \<noteq> result"
    and "chain s (head_of (matrices s ! other)) bs" "\<forall>b\<in>set bs. b < n0"
  shows "\<exists>s' cs'. multiply_outer_st s result p other = Some s' \<and>
           represents s' result cs' (multiply_outer R (contents s as) (contents s bs)) \<and>
           (\<forall>c\<in>set cs'. n0 \<le> c) \<and> extends n0 result s s'"
  using assms
proof (induction as arbitrary: s p cs R)
  case Nil
  then have "multiply_outer_st s result p other = Some s"
    by (subst multiply_outer_st.simps) simp
  with Nil extends_refl [of n0 result s] show ?case
    by (intro exI [of _ s] exI [of _ cs]) (simp add: contents_def)
next
  case (Cons a as)
  let ?na = "nodes s ! a"
  from Cons.prems(1) have p: "p = Some a" and a: "a < length (nodes s)"
    and rest: "chain s (next_of ?na) as"
    by simp_all
  from Cons.prems(2) have a0: "a < n0" and as0: "\<forall>a\<in>set as. a < n0" by simp_all
  from multiply_inner_st_refines [OF Cons.prems(8,9,3,4,5) a0]
  obtain s1 cs1 where
    inner: "multiply_inner_st s result (head_of (matrices s ! other)) a = Some s1"
    and rep1: "represents s1 result cs1 (multiply_inner R (abs_node ?na) (contents s bs))"
    and fresh1: "\<forall>c\<in>set cs1. n0 \<le> c" and ext1: "extends n0 result s s1"
    by blast
  have node1: "node_at s1 a = Some ?na"
    using ext1 a0 a by (rule extends_node_at)
  have rest1: "chain s1 (next_of ?na) as" and cont1: "contents s1 as = contents s as"
    using extends_keeps_chain [OF ext1 rest as0] by simp_all
  have len1: "n0 \<le> length (nodes s1)"
    using ext1 Cons.prems(3) by (rule extends_length)
  have other1: "other < length (matrices s1)" "matrices s1 ! other = matrices s ! other"
    using ext1 Cons.prems(6,7) by (simp_all add: extends_def)
  have bs1: "chain s1 (head_of (matrices s1 ! other)) bs" and contb1: "contents s1 bs = contents s bs"
    using extends_keeps_chain [OF ext1 Cons.prems(8,9)] other1 by simp_all
  from Cons.IH [OF rest1 as0 len1 rep1 fresh1 other1(1) Cons.prems(7) bs1 Cons.prems(9)]
  obtain s' cs' where
    loop: "multiply_outer_st s1 result (next_of ?na) other = Some s'"
    and rep': "represents s' result cs'
        (multiply_outer (multiply_inner R (abs_node ?na) (contents s bs))
           (contents s1 as) (contents s1 bs))"
    and fresh': "\<forall>c\<in>set cs'. n0 \<le> c" and ext': "extends n0 result s1 s'"
    by blast
  have "multiply_outer_st s result p other = Some s'"
    using p a Cons.prems(6) inner node1 loop
    by (subst multiply_outer_st.simps) (simp add: node_at_def matrix_at_def)
  moreover have "multiply_outer R (contents s (a # as)) (contents s bs) =
      multiply_outer (multiply_inner R (abs_node ?na) (contents s bs)) (contents s as) (contents s bs)"
    by (simp add: contents_def)
  with rep' cont1 contb1
  have "represents s' result cs' (multiply_outer R (contents s (a # as)) (contents s bs))"
    by simp
  moreover note fresh' extends_trans [OF ext1 ext']
  ultimately show ?case by blast
qed

subsection \<open>add, subtract and multiply\<close>

lemma prefix_nth:
  assumes "length xs \<le> length ys" "\<forall>i<length xs. ys ! i = xs ! i"
  shows "prefix xs ys"
proof -
  have "take (length xs) ys = xs"
    using assms by (intro nth_equalityI) simp_all
  then show ?thesis
    by (metis take_is_prefix)
qed

lemma chain_same_nodes: "nodes s' = nodes s \<Longrightarrow> chain s' p as = chain s p as"
  by (induction as arbitrary: p) simp_all

lemma represents_new_SparseMatrix:
  assumes "new_SparseMatrix s nr nc = (s1, result)"
  shows "result = length (matrices s)" "nodes s1 = nodes s"
    "represents s1 result [] (SparseMatrix nr nc)"
    "\<forall>k<length (matrices s). matrices s1 ! k = matrices s ! k"
    "length (matrices s1) = Suc (length (matrices s))"
  using assms
  by (auto simp: new_SparseMatrix_def represents_def SparseMatrix_def contents_def nth_append)

lemma extends_from_new:
  assumes new: "new_SparseMatrix s nr nc = (s1, result)"
    and ext: "extends (length (nodes s)) result s1 s'"
  shows "prefix (nodes s) (nodes s')" "prefix (matrices s) (matrices s')"
    "length (matrices s') = Suc (length (matrices s))"
proof -
  note n = represents_new_SparseMatrix [OF new]
  from ext n(2) show "prefix (nodes s) (nodes s')"
    by (intro prefix_nth) (simp_all add: extends_def)
  from ext n(1,4,5) show "prefix (matrices s) (matrices s')"
    by (intro prefix_nth) (simp_all add: extends_def)
  from ext n(5) show "length (matrices s') = Suc (length (matrices s))"
    by (simp add: extends_def)
qed

lemma represents_in_new:
  assumes new: "new_SparseMatrix s nr nc = (s1, result)"
    and rep: "represents s m as M"
  shows "m < length (matrices s1)" "m \<noteq> result" "matrices s1 ! m = matrices s ! m"
    "chain s1 (head_of (matrices s1 ! m)) as" "contents s1 as = contents s as"
    "\<forall>a\<in>set as. a < length (nodes s1)"
proof -
  note n = represents_new_SparseMatrix [OF new]
  from rep have m: "m < length (matrices s)" and ch: "chain s (head_of (matrices s ! m)) as"
    by (simp_all add: represents_def)
  from m n show "m < length (matrices s1)" "m \<noteq> result" "matrices s1 ! m = matrices s ! m"
    by simp_all
  with ch chain_same_nodes [OF n(2)] show "chain s1 (head_of (matrices s1 ! m)) as"
    by simp
  from n(2) show "contents s1 as = contents s as"
    by (simp add: contents_def)
  from chain_bound [OF ch] n(2) show "\<forall>a\<in>set as. a < length (nodes s1)"
    by simp
qed

lemma add_st_refines:
  assumes A: "represents s self as A" and B: "represents s other bs B"
  shows "case add A B of
           Inl e \<Rightarrow> add_st s self other = Some (Inl e)
         | Inr R \<Rightarrow> \<exists>s' cs. add_st s self other = Some (Inr (s', length (matrices s))) \<and>
             represents s' (length (matrices s)) cs R \<and> (\<forall>c\<in>set cs. length (nodes s) \<le> c) \<and>
             prefix (nodes s) (nodes s') \<and> prefix (matrices s) (matrices s') \<and>
             length (matrices s') = Suc (length (matrices s))"
proof -
  let ?a = "matrices s ! self" and ?b = "matrices s ! other"
  from A B have ma: "matrix_at s self = Some ?a" and mb: "matrix_at s other = Some ?b"
    and dims: "num_rows A = num_rows_of ?a" "num_cols A = num_cols_of ?a"
      "num_rows B = num_rows_of ?b" "num_cols B = num_cols_of ?b"
    and hd: "head A = contents s as" "head B = contents s bs"
    by (simp_all add: represents_def matrix_at_def)
  show ?thesis
  proof (cases "num_rows A \<noteq> num_rows B \<or> num_cols A \<noteq> num_cols B")
    case True
    with ma mb dims show ?thesis
      by (simp add: add_def add_st_def)
  next
    case False
    obtain s1 result where new: "new_SparseMatrix s (num_rows_of ?a) (num_cols_of ?a) = (s1, result)"
      by (simp add: new_SparseMatrix_def)
    note n = represents_new_SparseMatrix [OF new]
    note a1 = represents_in_new [OF new A]
    note b1 = represents_in_new [OF new B]
    let ?n0 = "length (nodes s)"
    have len1: "?n0 \<le> length (nodes s1)" using n(2) by simp
    have as0: "\<forall>a\<in>set as. a < ?n0" and bs0: "\<forall>b\<in>set bs. b < ?n0"
      using a1(6) b1(6) n(2) by simp_all
    from copy_loop_st_refines [OF a1(4) as0 len1 n(3)]
    obtain s2 cs2 where
      copy: "copy_loop_st s1 result (head_of (matrices s1 ! self)) = Some s2"
      and rep2: "represents s2 result cs2
          (copy_loop (SparseMatrix (num_rows_of ?a) (num_cols_of ?a)) (contents s1 as))"
      and fresh2: "\<forall>c\<in>set cs2. ?n0 \<le> c" and ext2: "extends ?n0 result s1 s2"
      by auto
    have other2: "other < length (matrices s2)" "matrices s2 ! other = matrices s1 ! other"
      using ext2 b1(1,2) by (simp_all add: extends_def)
    have bs2: "chain s2 (head_of (matrices s2 ! other)) bs" "contents s2 bs = contents s1 bs"
      using extends_keeps_chain [OF ext2 b1(4) bs0] other2 by simp_all
    have len2: "?n0 \<le> length (nodes s2)"
      using ext2 len1 by (rule extends_length)
    from add_loop_st_refines [OF bs2(1) bs0 len2 rep2 fresh2]
    obtain s3 cs3 where
      loop: "add_loop_st s2 result (head_of (matrices s2 ! other)) = Some s3"
      and rep3: "represents s3 result cs3
          (add_loop (copy_loop (SparseMatrix (num_rows_of ?a) (num_cols_of ?a)) (contents s1 as))
             (contents s2 bs))"
      and fresh3: "\<forall>c\<in>set cs3. ?n0 \<le> c" and ext3: "extends ?n0 result s2 s3"
      by auto
    have run: "add_st s self other = Some (Inr (s3, result))"
      using False ma mb dims new a1(1,3) copy other2 loop
      by (simp add: add_st_def matrix_at_def)
    have res: "add A B = Inr (add_loop
        (copy_loop (SparseMatrix (num_rows_of ?a) (num_cols_of ?a)) (contents s1 as))
        (contents s2 bs))"
      using False dims hd a1(5) b1(5) bs2(2) by (simp add: add_def)
    note pre = extends_from_new [OF new extends_trans [OF ext2 ext3]]
    from run rep3 fresh3 pre n(1) show ?thesis
      unfolding res sum.case by (intro exI [of _ s3] exI [of _ cs3]) simp
  qed
qed

lemma subtract_st_refines:
  assumes A: "represents s self as A" and B: "represents s other bs B"
  shows "case subtract A B of
           Inl e \<Rightarrow> subtract_st s self other = Some (Inl e)
         | Inr R \<Rightarrow> \<exists>s' cs. subtract_st s self other = Some (Inr (s', length (matrices s))) \<and>
             represents s' (length (matrices s)) cs R \<and> (\<forall>c\<in>set cs. length (nodes s) \<le> c) \<and>
             prefix (nodes s) (nodes s') \<and> prefix (matrices s) (matrices s') \<and>
             length (matrices s') = Suc (length (matrices s))"
proof -
  let ?a = "matrices s ! self" and ?b = "matrices s ! other"
  from A B have ma: "matrix_at s self = Some ?a" and mb: "matrix_at s other = Some ?b"
    and dims: "num_rows A = num_rows_of ?a" "num_cols A = num_cols_of ?a"
      "num_rows B = num_rows_of ?b" "num_cols B = num_cols_of ?b"
    and hd: "head A = contents s as" "head B = contents s bs"
    by (simp_all add: represents_def matrix_at_def)
  show ?thesis
  proof (cases "num_rows A \<noteq> num_rows B \<or> num_cols A \<noteq> num_cols B")
    case True
    with ma mb dims show ?thesis
      by (simp add: subtract_def subtract_st_def)
  next
    case False
    obtain s1 result where new: "new_SparseMatrix s (num_rows_of ?a) (num_cols_of ?a) = (s1, result)"
      by (simp add: new_SparseMatrix_def)
    note n = represents_new_SparseMatrix [OF new]
    note a1 = represents_in_new [OF new A]
    note b1 = represents_in_new [OF new B]
    let ?n0 = "length (nodes s)"
    have len1: "?n0 \<le> length (nodes s1)" using n(2) by simp
    have as0: "\<forall>a\<in>set as. a < ?n0" and bs0: "\<forall>b\<in>set bs. b < ?n0"
      using a1(6) b1(6) n(2) by simp_all
    from copy_loop_st_refines [OF a1(4) as0 len1 n(3)]
    obtain s2 cs2 where
      copy: "copy_loop_st s1 result (head_of (matrices s1 ! self)) = Some s2"
      and rep2: "represents s2 result cs2
          (copy_loop (SparseMatrix (num_rows_of ?a) (num_cols_of ?a)) (contents s1 as))"
      and fresh2: "\<forall>c\<in>set cs2. ?n0 \<le> c" and ext2: "extends ?n0 result s1 s2"
      by auto
    have other2: "other < length (matrices s2)" "matrices s2 ! other = matrices s1 ! other"
      using ext2 b1(1,2) by (simp_all add: extends_def)
    have bs2: "chain s2 (head_of (matrices s2 ! other)) bs" "contents s2 bs = contents s1 bs"
      using extends_keeps_chain [OF ext2 b1(4) bs0] other2 by simp_all
    have len2: "?n0 \<le> length (nodes s2)"
      using ext2 len1 by (rule extends_length)
    from subtract_loop_st_refines [OF bs2(1) bs0 len2 rep2 fresh2]
    obtain s3 cs3 where
      loop: "subtract_loop_st s2 result (head_of (matrices s2 ! other)) = Some s3"
      and rep3: "represents s3 result cs3
          (subtract_loop (copy_loop (SparseMatrix (num_rows_of ?a) (num_cols_of ?a)) (contents s1 as))
             (contents s2 bs))"
      and fresh3: "\<forall>c\<in>set cs3. ?n0 \<le> c" and ext3: "extends ?n0 result s2 s3"
      by auto
    have run: "subtract_st s self other = Some (Inr (s3, result))"
      using False ma mb dims new a1(1,3) copy other2 loop
      by (simp add: subtract_st_def matrix_at_def)
    have res: "subtract A B = Inr (subtract_loop
        (copy_loop (SparseMatrix (num_rows_of ?a) (num_cols_of ?a)) (contents s1 as))
        (contents s2 bs))"
      using False dims hd a1(5) b1(5) bs2(2) by (simp add: subtract_def)
    note pre = extends_from_new [OF new extends_trans [OF ext2 ext3]]
    from run rep3 fresh3 pre n(1) show ?thesis
      unfolding res sum.case by (intro exI [of _ s3] exI [of _ cs3]) simp
  qed
qed

lemma multiply_st_refines:
  assumes A: "represents s self as A" and B: "represents s other bs B"
  shows "case multiply A B of
           Inl e \<Rightarrow> multiply_st s self other = Some (Inl e)
         | Inr R \<Rightarrow> \<exists>s' cs. multiply_st s self other = Some (Inr (s', length (matrices s))) \<and>
             represents s' (length (matrices s)) cs R \<and> (\<forall>c\<in>set cs. length (nodes s) \<le> c) \<and>
             prefix (nodes s) (nodes s') \<and> prefix (matrices s) (matrices s') \<and>
             length (matrices s') = Suc (length (matrices s))"
proof -
  let ?a = "matrices s ! self" and ?b = "matrices s ! other"
  from A B have ma: "matrix_at s self = Some ?a" and mb: "matrix_at s other = Some ?b"
    and dims: "num_rows A = num_rows_of ?a" "num_cols A = num_cols_of ?a"
      "num_rows B = num_rows_of ?b" "num_cols B = num_cols_of ?b"
    and hd: "head A = contents s as" "head B = contents s bs"
    by (simp_all add: represents_def matrix_at_def)
  show ?thesis
  proof (cases "num_cols A \<noteq> num_rows B")
    case True
    with ma mb dims show ?thesis
      by (simp add: multiply_def multiply_st_def)
  next
    case False
    obtain s1 result where new: "new_SparseMatrix s (num_rows_of ?a) (num_cols_of ?b) = (s1, result)"
      by (simp add: new_SparseMatrix_def)
    note n = represents_new_SparseMatrix [OF new]
    note a1 = represents_in_new [OF new A]
    note b1 = represents_in_new [OF new B]
    let ?n0 = "length (nodes s)"
    have len1: "?n0 \<le> length (nodes s1)" using n(2) by simp
    have as0: "\<forall>a\<in>set as. a < ?n0" and bs0: "\<forall>b\<in>set bs. b < ?n0"
      using a1(6) b1(6) n(2) by simp_all
    have fresh1: "\<forall>c\<in>set []. ?n0 \<le> c" by simp
    from multiply_outer_st_refines [OF a1(4) as0 len1 n(3) fresh1 b1(1,2,4) bs0]
    obtain s2 cs2 where
      loop: "multiply_outer_st s1 result (head_of (matrices s1 ! self)) other = Some s2"
      and rep2: "represents s2 result cs2
          (multiply_outer (SparseMatrix (num_rows_of ?a) (num_cols_of ?b))
             (contents s1 as) (contents s1 bs))"
      and fresh2: "\<forall>c\<in>set cs2. ?n0 \<le> c" and ext2: "extends ?n0 result s1 s2"
      by auto
    have run: "multiply_st s self other = Some (Inr (s2, result))"
      using False ma mb dims new a1(1,3) loop
      by (simp add: multiply_st_def matrix_at_def)
    have res: "multiply A B = Inr (multiply_outer (SparseMatrix (num_rows_of ?a) (num_cols_of ?b))
             (contents s1 as) (contents s1 bs))"
      using False dims hd a1(5) b1(5) by (simp add: multiply_def)
    note pre = extends_from_new [OF new ext2]
    from run rep2 fresh2 pre n(1) show ?thesis
      unfolding res sum.case by (intro exI [of _ s2] exI [of _ cs2]) simp
  qed
qed

lemma represents_prefix:
  assumes "represents s m bs M" "prefix (nodes s) (nodes s')" "prefix (matrices s) (matrices s')"
  shows "represents s' m bs M"
proof -
  from assms(1) have m: "m < length (matrices s)" and ch: "chain s (head_of (matrices s ! m)) bs"
    and M: "M = \<lparr>head = contents s bs, num_rows = num_rows_of (matrices s ! m),
          num_cols = num_cols_of (matrices s ! m)\<rparr>"
    by (simp_all add: represents_def)
  from assms(2) obtain ns where ns: "nodes s' = nodes s @ ns" by (auto simp: prefix_def)
  from assms(3) obtain ms where ms: "matrices s' = matrices s @ ms" by (auto simp: prefix_def)
  have same: "\<forall>a\<in>set bs. nodes s' ! a = nodes s ! a"
    using chain_bound [OF ch] by (simp add: ns nth_append)
  have "chain s' (head_of (matrices s ! m)) bs"
    using ch _ same by (rule chain_cong) (simp add: ns)
  moreover have "contents s' bs = contents s bs"
    using same by (simp add: contents_def)
  ultimately show ?thesis
    using m M by (simp add: represents_def ms nth_append)
qed

section \<open>No call removes a node\<close>

lemma grows_refl: "grows s f s f"
  by (simp add: grows_def)

lemma grows_trans:
  assumes "grows s f s1 f1" "grows s1 f1 s2 f2" "well_formed s f"
  shows "grows s f s2 f2"
  unfolding grows_def
proof (intro conjI allI impI)
  show "length (matrices s) \<le> length (matrices s2)"
    using assms by (simp add: grows_def)
next
  fix m assume m: "m < length (matrices s)"
  then have m1: "m < length (matrices s1)" using assms(1) by (simp add: grows_def)
  from assms m m1 show "subseq (f m) (f2 m)"
    unfolding grows_def by (meson subseq_order.trans)
  have sub: "subseq (f m) (f1 m)" using assms(1) m by (simp add: grows_def)
  have "contents s2 (f1 m) = contents s1 (f1 m)" using assms(2) m1 by (simp add: grows_def)
  then have "\<forall>a\<in>set (f1 m). abs_node (nodes s2 ! a) = abs_node (nodes s1 ! a)"
    by (simp add: contents_def)
  moreover have "set (f m) \<subseteq> set (f1 m)"
    using sub by (auto dest: list_emb_set)
  ultimately have "\<forall>a\<in>set (f m). abs_node (nodes s2 ! a) = abs_node (nodes s1 ! a)"
    by blast
  then have "contents s2 (f m) = contents s1 (f m)"
    by (simp add: contents_def)
  with assms(1) m show "contents s2 (f m) = contents s (f m)"
    by (simp add: grows_def)
qed

lemma chain_prefix:
  assumes "chain s p bs" "prefix (nodes s) (nodes s')"
  shows "chain s' p bs" "contents s' bs = contents s bs"
proof -
  from assms(2) obtain ns where ns: "nodes s' = nodes s @ ns" by (auto simp: prefix_def)
  have same: "\<forall>a\<in>set bs. nodes s' ! a = nodes s ! a"
    using chain_bound [OF assms(1)] by (simp add: ns nth_append)
  show "chain s' p bs"
    using assms(1) _ same by (rule chain_cong) (simp add: ns)
  show "contents s' bs = contents s bs"
    using same by (simp add: contents_def)
qed

lemma new_matrix_step:
  assumes wf: "well_formed s f"
    and pre: "prefix (nodes s) (nodes s')" "prefix (matrices s) (matrices s')"
    and len: "length (matrices s') = Suc (length (matrices s))"
    and ch: "chain s' (head_of (matrices s' ! length (matrices s))) cs"
    and fresh: "\<forall>c\<in>set cs. length (nodes s) \<le> c"
  shows "well_formed s' (f(length (matrices s) := cs))"
    and "grows s f s' (f(length (matrices s) := cs))"
proof -
  let ?m0 = "length (matrices s)"
  let ?f' = "f(?m0 := cs)"
  from pre(2) obtain ms where ms: "matrices s' = matrices s @ ms" by (auto simp: prefix_def)
  have old: "chain s' (head_of (matrices s' ! m)) (f m)" "contents s' (f m) = contents s (f m)"
    "\<forall>a\<in>set (f m). a < length (nodes s)" if "m < ?m0" for m
  proof -
    from wf that have c: "chain s (head_of (matrices s ! m)) (f m)"
      by (simp add: well_formed_def)
    from chain_prefix [OF c pre(1)] that
    show "chain s' (head_of (matrices s' ! m)) (f m)" "contents s' (f m) = contents s (f m)"
      by (simp_all add: ms nth_append)
    from chain_bound [OF c] show "\<forall>a\<in>set (f m). a < length (nodes s)" by blast
  qed
  have disj: "set (f m) \<inter> set cs = {}" if "m < ?m0" for m
    using old(3) [OF that] fresh by fastforce
  show "well_formed s' ?f'"
    unfolding well_formed_def len
  proof (intro conjI allI impI)
    fix m assume "m < Suc ?m0"
    then show "chain s' (head_of (matrices s' ! m)) (?f' m)"
      using ch old(1) by (cases "m = ?m0") simp_all
  next
    fix m m' assume "m < Suc ?m0" "m' < Suc ?m0" "m \<noteq> m'"
    moreover from wf have "set (f m) \<inter> set (f m') = {}" if "m < ?m0" "m' < ?m0" "m \<noteq> m'"
      using that by (simp add: well_formed_def)
    ultimately show "set (?f' m) \<inter> set (?f' m') = {}"
      using disj [of m] disj [of m'] by (cases "m = ?m0"; cases "m' = ?m0") auto
  qed
  show "grows s f s' ?f'"
    unfolding grows_def using old(2) len by simp
qed

lemma subseq_insert_middle: "subseq (xs @ ys) (xs @ x # ys)"
  by (auto simp: subseq_append')

lemma set_element_exact:
  assumes wf: "well_formed s f" and m: "m < length (matrices s)" and v: "v \<noteq> 0"
  shows "set_element_st s m r c v = Some (linked_in s m r c v (f m))"
    and "well_formed (linked_in s m r c v (f m))
          (f(m := takeWhile (ordered_before s r c) (f m) @ length (nodes s) #
                  dropWhile (ordered_before s r c) (f m)))"
    and "grows s f (linked_in s m r c v (f m))
          (f(m := takeWhile (ordered_before s r c) (f m) @ length (nodes s) #
                  dropWhile (ordered_before s r c) (f m)))"
proof -
  let ?bs = "f m"
  let ?xs = "takeWhile (ordered_before s r c) ?bs"
  let ?ys = "dropWhile (ordered_before s r c) ?bs"
  let ?new = "length (nodes s)"
  let ?f' = "f(m := ?xs @ ?new # ?ys)"
  from wf m have ch: "chain s (head_of (matrices s ! m)) ?bs"
    by (simp add: well_formed_def)
  define s' where "s' = linked_in s m r c v ?bs"
  have bound: "\<forall>a\<in>set (f k). a < ?new" if "k < length (matrices s)" for k
    using wf that chain_bound unfolding well_formed_def by blast
  have split: "set ?xs \<union> set ?ys = set ?bs"
    by (metis set_append takeWhile_dropWhile_id)
  have other: "chain s' (head_of (matrices s' ! k)) (f k)"
    if k: "k < length (matrices s)" "k \<noteq> m" for k
  proof -
    from wf k have c: "chain s (head_of (matrices s ! k)) (f k)"
      and d: "set (f k) \<inter> set ?bs = {}"
      using m by (simp_all add: well_formed_def)
    have "nodes s' ! a = nodes s ! a" if "a \<in> set (f k)" for a
    proof -
      from that d have "a \<notin> set ?xs" using split by blast
      then have "?xs \<noteq> [] \<Longrightarrow> a \<noteq> last ?xs" using last_in_set by metis
      with bound [OF k(1)] that show ?thesis
        by (auto simp: s'_def linked_in_old)
    qed
    then have same: "\<forall>a\<in>set (f k). nodes s' ! a = nodes s ! a" by blast
    have "length (nodes s) \<le> length (nodes s')" by (simp add: s'_def linked_in_lengths)
    with c have "chain s' (head_of (matrices s ! k)) (f k)"
      using same by (rule chain_cong)
    with k show ?thesis
      by (simp add: s'_def linked_in_matrices)
  qed
  have wf': "well_formed s' ?f'"
    unfolding well_formed_def
  proof (intro conjI allI impI)
    fix k assume "k < length (matrices s')"
    then have k: "k < length (matrices s)" by (simp add: s'_def linked_in_lengths)
    show "chain s' (head_of (matrices s' ! k)) (?f' k)"
    proof (cases "k = m")
      case True
      with linked_in_chain [OF m ch, of r c v] show ?thesis by (simp add: s'_def)
    next
      case False
      with other [OF k] show ?thesis by simp
    qed
  next
    fix k k' assume "k < length (matrices s')" "k' < length (matrices s')" and ne: "k \<noteq> k'"
    then have k: "k < length (matrices s)" "k' < length (matrices s)"
      by (simp_all add: s'_def linked_in_lengths)
    have d: "set (f i) \<inter> set (f j) = {}" if "i < length (matrices s)" "j < length (matrices s)" "i \<noteq> j" for i j
      using wf that by (simp add: well_formed_def)
    have new: "set (?xs @ ?new # ?ys) \<inter> set (f j) = {}" if "j < length (matrices s)" "j \<noteq> m" for j
    proof -
      have "?new \<notin> set (f j)" using bound [OF that(1)] by auto
      moreover have "set ?bs \<inter> set (f j) = {}" using d [OF m that(1)] that(2) by simp
      ultimately show ?thesis using split by auto
    qed
    show "set (?f' k) \<inter> set (?f' k') = {}"
      using ne k d [of k k'] new [of k] new [of k'] by (cases "k = m"; cases "k' = m") auto
  qed
  have "grows s f s' ?f'"
    unfolding grows_def
  proof (intro conjI allI impI)
    show "length (matrices s) \<le> length (matrices s')" by (simp add: s'_def linked_in_lengths)
  next
    fix k assume k: "k < length (matrices s)"
    have "subseq ?bs (?xs @ ?new # ?ys)"
      using subseq_insert_middle [of ?xs ?ys ?new] by simp
    then show "subseq (f k) (?f' k)" by simp
    show "contents s' (f k) = contents s (f k)"
      using bound [OF k] by (simp add: contents_def s'_def linked_in_abs_node)
  qed
  with wf' show "well_formed (linked_in s m r c v (f m)) ?f'" "grows s f (linked_in s m r c v (f m)) ?f'"
    by (simp_all add: s'_def)
  show "set_element_st s m r c v = Some (linked_in s m r c v (f m))"
    using m ch v by (rule set_element_st_eq)
qed

lemma set_element_step:
  assumes wf: "well_formed s f" and run: "set_element_st s m r c v = Some s'"
  shows "\<exists>f'. well_formed s' f' \<and> grows s f s' f'"
proof (cases "v = 0")
  case True
  with run have "s' = s" by (simp add: set_element_st_def)
  with wf grows_refl show ?thesis by blast
next
  case False
  have m: "m < length (matrices s)"
  proof (rule ccontr)
    assume "\<not> m < length (matrices s)"
    with False have "set_element_st s m r c v = None"
      by (simp add: set_element_st_def new_Node_def matrix_at_def)
    with run show False by simp
  qed
  from set_element_exact [OF wf m False, of r c] run show ?thesis
    by auto
qed

lemma represents_abs:
  assumes "well_formed s f" "m < length (matrices s)"
  shows "represents s m (f m)
     \<lparr>head = contents s (f m), num_rows = num_rows_of (matrices s ! m),
      num_cols = num_cols_of (matrices s ! m)\<rparr>"
  using assms by (simp add: well_formed_def represents_def)

lemma returns_fresh_step:
  assumes wf: "well_formed s f" and post: "returns_fresh s expected out"
    and run: "after_arith s out = Some s'"
  shows "(\<exists>f'. well_formed s' f' \<and> grows s f s' f') \<and>
         prefix (nodes s) (nodes s') \<and> prefix (matrices s) (matrices s')"
proof (cases expected)
  case (Inl e)
  with post run have "s' = s" by (simp add: returns_fresh_def)
  with wf grows_refl show ?thesis by auto
next
  case (Inr R)
  with post obtain s2 cs where out: "out = Some (Inr (s2, length (matrices s)))"
    and rep: "represents s2 (length (matrices s)) cs R"
    and fresh: "\<forall>c\<in>set cs. length (nodes s) \<le> c"
    and pre: "prefix (nodes s) (nodes s2)" "prefix (matrices s) (matrices s2)"
    and len: "length (matrices s2) = Suc (length (matrices s))"
    by (auto simp: returns_fresh_def)
  from out run have s': "s' = s2" by simp
  from rep have ch: "chain s2 (head_of (matrices s2 ! length (matrices s))) cs"
    by (simp add: represents_def)
  from new_matrix_step [OF wf pre len ch fresh] pre show ?thesis
    unfolding s' by blast
qed

lemma add_st_returns:
  assumes "represents s self as A" "represents s other bs B"
  shows "returns_fresh s (add A B) (add_st s self other)"
  using add_st_refines [OF assms] unfolding returns_fresh_def .

lemma subtract_st_returns:
  assumes "represents s self as A" "represents s other bs B"
  shows "returns_fresh s (subtract A B) (subtract_st s self other)"
  using subtract_st_refines [OF assms] unfolding returns_fresh_def .

lemma multiply_st_returns:
  assumes "represents s self as A" "represents s other bs B"
  shows "returns_fresh s (multiply A B) (multiply_st s self other)"
  using multiply_st_refines [OF assms] unfolding returns_fresh_def .

lemma arith_needs_operands:
  assumes "\<not> (a < length (matrices s) \<and> b < length (matrices s))"
  shows "add_st s a b = None" "subtract_st s a b = None" "multiply_st s a b = None"
  using assms
  by (auto simp: add_st_def subtract_st_def multiply_st_def matrix_at_def)

lemma after_arith_returns:
  "returns_fresh s expected out \<Longrightarrow> after_arith s out \<noteq> None"
  by (cases expected) (auto simp: returns_fresh_def)

lemma run_call_total:
  assumes wf: "well_formed s f" and ok: "valid_call s c"
  shows "run_call s c \<noteq> None"
proof (cases c)
  case (Create nr nc)
  then show ?thesis by simp
next
  case (SetElement m r c v)
  with ok have m: "m < length (matrices s)" by simp
  from set_element_st_refines [OF represents_abs [OF wf m], of 0 r c v]
  show ?thesis using SetElement by auto
next
  case (GetElement m r c)
  with ok have m: "m < length (matrices s)" by simp
  from get_element_st_refines [OF represents_abs [OF wf m], of r c]
  show ?thesis using GetElement by simp
next
  case (Add a b)
  with ok have "a < length (matrices s)" "b < length (matrices s)" by simp_all
  from add_st_returns [OF represents_abs [OF wf this(1)] represents_abs [OF wf this(2)]]
  show ?thesis using Add by (simp add: after_arith_returns)
next
  case (Subtract a b)
  with ok have "a < length (matrices s)" "b < length (matrices s)" by simp_all
  from subtract_st_returns [OF represents_abs [OF wf this(1)] represents_abs [OF wf this(2)]]
  show ?thesis using Subtract by (simp add: after_arith_returns)
next
  case (Multiply a b)
  with ok have "a < length (matrices s)" "b < length (matrices s)" by simp_all
  from multiply_st_returns [OF represents_abs [OF wf this(1)] represents_abs [OF wf this(2)]]
  show ?thesis using Multiply by (simp add: after_arith_returns)
qed

lemma run_call_step:
  assumes wf: "well_formed s f" and run: "run_call s c = Some s'"
  shows "\<exists>f'. well_formed s' f' \<and> grows s f s' f'"
proof (cases c)
  case (Create nr nc)
  with run have s': "s' = s\<lparr>matrices := matrices s @
      [\<lparr>head_of = None, num_rows_of = nr, num_cols_of = nc\<rparr>]\<rparr>"
    by (simp add: new_SparseMatrix_def)
  have "well_formed s' (f(length (matrices s) := []))"
    "grows s f s' (f(length (matrices s) := []))"
    by (rule new_matrix_step [OF wf]; simp add: s')+
  then show ?thesis by blast
next
  case (SetElement m r c v)
  with run set_element_step [OF wf] show ?thesis by simp
next
  case (GetElement m r c)
  with run have "s' = s" by (simp split: option.splits)
  with wf grows_refl show ?thesis by blast
next
  case (Add a b)
  show ?thesis
  proof (cases "a < length (matrices s) \<and> b < length (matrices s)")
    case True
    then have a: "a < length (matrices s)" and b: "b < length (matrices s)" by simp_all
    from returns_fresh_step
      [OF wf add_st_returns [OF represents_abs [OF wf a] represents_abs [OF wf b]]] run Add
    show ?thesis by simp
  next
    case False
    with run Add arith_needs_operands(1) [OF False] show ?thesis by simp
  qed
next
  case (Subtract a b)
  show ?thesis
  proof (cases "a < length (matrices s) \<and> b < length (matrices s)")
    case True
    then have a: "a < length (matrices s)" and b: "b < length (matrices s)" by simp_all
    from returns_fresh_step
      [OF wf subtract_st_returns [OF represents_abs [OF wf a] represents_abs [OF wf b]]] run Subtract
    show ?thesis by simp
  next
    case False
    with run Subtract arith_needs_operands(2) [OF False] show ?thesis by simp
  qed
next
  case (Multiply a b)
  show ?thesis
  proof (cases "a < length (matrices s) \<and> b < length (matrices s)")
    case True
    then have a: "a < length (matrices s)" and b: "b < length (matrices s)" by simp_all
    from returns_fresh_step
      [OF wf multiply_st_returns [OF represents_abs [OF wf a] represents_abs [OF wf b]]] run Multiply
    show ?thesis by simp
  next
    case False
    with run Multiply arith_needs_operands(3) [OF False] show ?thesis by simp
  qed
qed

lemma run_calls_grow:
  assumes "well_formed s f" "run_calls s calls = Some s'"
  shows "\<exists>f'. well_formed s' f' \<and> grows s f s' f'"
  using assms
proof (induction calls arbitrary: s f)
  case Nil
  then show ?case using grows_refl by auto
next
  case (Cons c calls)
  from Cons.prems(2) obtain s1 where 1: "run_call s c = Some s1" and 2: "run_calls s1 calls = Some s'"
    by (auto split: option.splits)
  from run_call_step [OF Cons.prems(1) 1] obtain f1 where
    wf1: "well_formed s1 f1" and g1: "grows s f s1 f1" by blast
  from Cons.IH [OF wf1 2] obtain f' where
    wf': "well_formed s' f'" and g': "grows s1 f1 s' f'" by blast
  from grows_trans [OF g1 g' Cons.prems(1)] wf' show ?case by blast
qed

lemma run_call_frame:
  assumes wf: "well_formed s f" and run: "run_call s c = Some s'" and c: "\<not> is_set_element c"
  shows "prefix (nodes s) (nodes s') \<and> prefix (matrices s) (matrices s')"
proof (cases c)
  case (Create nr nc)
  with run show ?thesis by (auto simp: new_SparseMatrix_def)
next
  case (SetElement m r c v)
  with c show ?thesis by simp
next
  case (GetElement m r c)
  with run show ?thesis by (auto split: option.splits)
next
  case (Add a b)
  show ?thesis
  proof (cases "a < length (matrices s) \<and> b < length (matrices s)")
    case True
    then have a: "a < length (matrices s)" and b: "b < length (matrices s)" by simp_all
    from returns_fresh_step
      [OF wf add_st_returns [OF represents_abs [OF wf a] represents_abs [OF wf b]]] run Add
    show ?thesis by simp
  next
    case False
    with run Add arith_needs_operands(1) [OF False] show ?thesis by simp
  qed
next
  case (Subtract a b)
  show ?thesis
  proof (cases "a < length (matrices s) \<and> b < length (matrices s)")
    case True
    then have a: "a < length (matrices s)" and b: "b < length (matrices s)" by simp_all
    from returns_fresh_step
      [OF wf subtract_st_returns [OF represents_abs [OF wf a] represents_abs [OF wf b]]] run Subtract
    show ?thesis by simp
  next
    case False
    with run Subtract arith_needs_operands(2) [OF False] show ?thesis by simp
  qed
next
  case (Multiply a b)
  show ?thesis
  proof (cases "a < length (matrices s) \<and> b < length (matrices s)")
    case True
    then have a: "a < length (matrices s)" and b: "b < length (matrices s)" by simp_all
    from returns_fresh_step
      [OF wf multiply_st_returns [OF represents_abs [OF wf a] represents_abs [OF wf b]]] run Multiply
    show ?thesis by simp
  next
    case False
    with run Multiply arith_needs_operands(3) [OF False] show ?thesis by simp
  qed
qed

lemma set_element_count:
  assumes wf: "well_formed s f" and m: "m < length (matrices s)"
  shows "\<exists>s' f'. run_call s (SetElement m r c v) = Some s' \<and> well_formed s' f' \<and>
           grows s f s' f' \<and>
           length (f' m) = (if v = 0 then length (f m) else Suc (length (f m))) \<and>
           length (nodes s') = (if v = 0 then length (nodes s) else Suc (length (nodes s)))"
proof (cases "v = 0")
  case True
  then have "run_call s (SetElement m r c v) = Some s" by (simp add: set_element_st_def)
  with wf True grows_refl [of s f] show ?thesis
    by (intro exI [of _ s] exI [of _ f]) simp
next
  case False
  let ?f' = "f(m := takeWhile (ordered_before s r c) (f m) @ length (nodes s) #
                  dropWhile (ordered_before s r c) (f m))"
  have "length (takeWhile (ordered_before s r c) (f m)) +
      length (dropWhile (ordered_before s r c) (f m)) = length (f m)"
    by (metis length_append takeWhile_dropWhile_id)
  then have "length (?f' m) = Suc (length (f m))" by simp
  with set_element_exact [OF wf m False, of r c] False show ?thesis
    by (intro exI [of _ "linked_in s m r c v (f m)"] exI [of _ ?f'])
       (simp add: linked_in_lengths)
qed

section \<open>get_element and set_element on both models\<close>

text \<open>
  C4: for any matrix state, any coordinate and any non-zero value, \<^verbatim>\<open>set_element(r,c,v)\<close>
  followed by \<^verbatim>\<open>get_element(r,c)\<close> returns \<open>v\<close>, whatever was stored at \<open>(r,c)\<close> before: in
  the first model, and in the store, where both calls return for every matrix object
  that has a chain.
\<close>

theorem set_then_get:
  "v \<noteq> 0 \<longrightarrow>
     get_element (set_element M r c v) r c = v \<and>
     (represents s m bs M \<longrightarrow>
        (\<exists>s'. set_element_st s m r c v = Some s' \<and> get_element_st s' m r c = Some v))"
proof (intro impI conjI)
  assume v: "v \<noteq> 0"
  then show 1: "get_element (set_element M r c v) r c = v"
    by (simp add: get_set_element)
  assume rep: "represents s m bs M"
  from set_element_st_refines [OF rep, of 0 r c v]
  obtain s' bs' where "set_element_st s m r c v = Some s'"
    and "represents s' m bs' (set_element M r c v)"
    by auto
  with get_element_st_refines [of s' m bs' "set_element M r c v" r c] 1
  show "\<exists>s'. set_element_st s m r c v = Some s' \<and> get_element_st s' m r c = Some v"
    by simp
qed

theorem set_then_get_witness:
  "(7::int) \<noteq> 0 \<and>
   get_element (set_element (set_element (SparseMatrix 2 2) 1 1 5) 1 1 7) 1 1 = 7 \<and>
   represents
     \<lparr>nodes = [\<lparr>row_of = 1, col_of = 1, value_of = 5, next_of = None\<rparr>],
      matrices = [\<lparr>head_of = Some 0, num_rows_of = 2, num_cols_of = 2\<rparr>]\<rparr> 0 [0]
     (set_element (SparseMatrix 2 2) 1 1 5) \<and>
   (\<exists>s'. set_element_st
       \<lparr>nodes = [\<lparr>row_of = 1, col_of = 1, value_of = 5, next_of = None\<rparr>],
        matrices = [\<lparr>head_of = Some 0, num_rows_of = 2, num_cols_of = 2\<rparr>]\<rparr> 0 1 1 7 = Some s' \<and>
      get_element_st s' 0 1 1 = Some 7)"
proof -
  have rep: "represents
     \<lparr>nodes = [\<lparr>row_of = 1, col_of = 1, value_of = 5, next_of = None\<rparr>],
      matrices = [\<lparr>head_of = Some 0, num_rows_of = 2, num_cols_of = 2\<rparr>]\<rparr> 0 [0]
     (set_element (SparseMatrix 2 2) 1 1 5)"
    by (simp add: represents_def contents_def abs_node_def set_element_def SparseMatrix_def)
  from set_then_get [of 7 "set_element (SparseMatrix 2 2) 1 1 5" 1 1 _ 0 "[0]"] rep
  show ?thesis by simp
qed

text \<open>
  C5: for every matrix and every pair of integers (in range or not), \<^verbatim>\<open>get_element\<close>
  returns the value of the first stored node with that row and column if there is one
  and 0 otherwise. It has no error branch and no assignment: in the store it returns for
  every matrix object that has a chain, and it returns a value only, so the store after
  the call is the store before it.
\<close>

theorem get_element_first_match:
  "get_element M r c =
     (case find (\<lambda>n. row n = r \<and> col n = c) (head M) of None \<Rightarrow> 0 | Some n \<Rightarrow> val n) \<and>
   (represents s m bs M \<longrightarrow> get_element_st s m r c = Some (get_element M r c))"
  by (simp add: get_element_def lookup_find get_element_st_refines)

theorem get_element_first_match_witness:
  "represents
     \<lparr>nodes = [\<lparr>row_of = 0, col_of = 0, value_of = 5, next_of = None\<rparr>],
      matrices = [\<lparr>head_of = Some 0, num_rows_of = 1, num_cols_of = 1\<rparr>]\<rparr> 0 [0]
     \<lparr>head = [\<lparr>row = 0, col = 0, val = 5\<rparr>], num_rows = 1, num_cols = 1\<rparr> \<and>
   get_element_st
     \<lparr>nodes = [\<lparr>row_of = 0, col_of = 0, value_of = 5, next_of = None\<rparr>],
      matrices = [\<lparr>head_of = Some 0, num_rows_of = 1, num_cols_of = 1\<rparr>]\<rparr> 0 0 0 = Some 5 \<and>
   get_element_st
     \<lparr>nodes = [\<lparr>row_of = 0, col_of = 0, value_of = 5, next_of = None\<rparr>],
      matrices = [\<lparr>head_of = Some 0, num_rows_of = 1, num_cols_of = 1\<rparr>]\<rparr> 0 (- 3) 40 = Some 0"
proof -
  have rep: "represents
     \<lparr>nodes = [\<lparr>row_of = 0, col_of = 0, value_of = 5, next_of = None\<rparr>],
      matrices = [\<lparr>head_of = Some 0, num_rows_of = 1, num_cols_of = 1\<rparr>]\<rparr> 0 [0]
     \<lparr>head = [\<lparr>row = 0, col = 0, val = 5\<rparr>], num_rows = 1, num_cols = 1\<rparr>"
    by (simp add: represents_def contents_def abs_node_def)
  from get_element_first_match [of _ 0 0 _ 0 "[0]"] get_element_first_match [of _ "- 3" 40 _ 0 "[0]"] rep
  show ?thesis by (simp add: get_element_def)
qed

text \<open>
  C6: \<^verbatim>\<open>set_element(r,c,0)\<close> returns at once: the matrix is the same afterwards, so every
  later \<^verbatim>\<open>get_element\<close> returns what it returned before; in the store no object is
  created or changed.
\<close>

theorem set_element_zero_noop:
  "set_element M r c 0 = M \<and>
   (\<forall>r' c'. get_element (set_element M r c 0) r' c' = get_element M r' c') \<and>
   set_element_st s m r c 0 = Some s"
  by (simp add: set_element_def set_element_st_def)

text \<open>
  C10: no operation removes a stored node. For a store in which every matrix has a
  chain and no two chains share a node:
  \<^item> after any sequence of calls (constructor, \<^verbatim>\<open>set_element\<close>, \<^verbatim>\<open>get_element\<close>, \<^verbatim>\<open>add\<close>,
    \<^verbatim>\<open>subtract\<close>, \<^verbatim>\<open>multiply\<close>) that returns, the store is well formed again, every matrix
    is still there, its earlier chain is a subsequence of its chain now (so its number
    of stored nodes has not decreased), and its earlier nodes hold the same row, column
    and value;
  \<^item> \<^verbatim>\<open>set_element\<close> on a matrix of the store returns, and the chain of that matrix is
    longer by exactly one node when the value is not 0 (whether or not a node with the
    same coordinates exists) and as long as before when the value is 0;
  \<^item> every call other than \<^verbatim>\<open>set_element\<close> leaves every node and every matrix object
    that existed before exactly as it was: it only adds objects.
\<close>

theorem stored_nodes_never_removed:
  assumes "well_formed s f"
  shows "(\<forall>calls s'. run_calls s calls = Some s' \<longrightarrow>
            (\<exists>f'. well_formed s' f' \<and> length (matrices s) \<le> length (matrices s') \<and>
               (\<forall>m<length (matrices s).
                  subseq (f m) (f' m) \<and> length (f m) \<le> length (f' m) \<and>
                  contents s' (f m) = contents s (f m)))) \<and>
         (\<forall>m r c v. m < length (matrices s) \<longrightarrow>
            (\<exists>s' f'. run_call s (SetElement m r c v) = Some s' \<and> well_formed s' f' \<and>
               subseq (f m) (f' m) \<and>
               length (f' m) = (if v = 0 then length (f m) else Suc (length (f m))))) \<and>
         (\<forall>c s'. run_call s c = Some s' \<and> \<not> is_set_element c \<longrightarrow>
            prefix (nodes s) (nodes s') \<and> prefix (matrices s) (matrices s'))"
proof (intro conjI allI impI)
  fix calls s' assume "run_calls s calls = Some s'"
  from run_calls_grow [OF assms this] obtain f' where
    wf': "well_formed s' f'" and g: "grows s f s' f'" by blast
  from g have "\<forall>m<length (matrices s). length (f m) \<le> length (f' m)"
    by (auto simp: grows_def dest: list_emb_length)
  with wf' g show "\<exists>f'. well_formed s' f' \<and> length (matrices s) \<le> length (matrices s') \<and>
               (\<forall>m<length (matrices s).
                  subseq (f m) (f' m) \<and> length (f m) \<le> length (f' m) \<and>
                  contents s' (f m) = contents s (f m))"
    by (intro exI [of _ f']) (simp add: grows_def)
next
  fix m r c v assume m: "m < length (matrices s)"
  from set_element_count [OF assms m, of r c v] m
  show "\<exists>s' f'. run_call s (SetElement m r c v) = Some s' \<and> well_formed s' f' \<and>
               subseq (f m) (f' m) \<and>
               length (f' m) = (if v = 0 then length (f m) else Suc (length (f m)))"
    unfolding grows_def by blast
next
  fix c s' assume "run_call s c = Some s' \<and> \<not> is_set_element c"
  with run_call_frame [OF assms] show "prefix (nodes s) (nodes s')" "prefix (matrices s) (matrices s')"
    by blast+
qed

theorem stored_nodes_never_removed_witness:
  "well_formed
     \<lparr>nodes = [\<lparr>row_of = 0, col_of = 0, value_of = 5, next_of = None\<rparr>],
      matrices = [\<lparr>head_of = Some 0, num_rows_of = 1, num_cols_of = 1\<rparr>]\<rparr> (\<lambda>m. [0]) \<and>
   run_calls
     \<lparr>nodes = [\<lparr>row_of = 0, col_of = 0, value_of = 5, next_of = None\<rparr>],
      matrices = [\<lparr>head_of = Some 0, num_rows_of = 1, num_cols_of = 1\<rparr>]\<rparr>
     [SetElement 0 0 0 7, Add 0 0, GetElement 1 0 0] =
   Some \<lparr>nodes =
       [\<lparr>row_of = 0, col_of = 0, value_of = 5, next_of = None\<rparr>,
        \<lparr>row_of = 0, col_of = 0, value_of = 7, next_of = Some 0\<rparr>,
        \<lparr>row_of = 0, col_of = 0, value_of = 7, next_of = None\<rparr>,
        \<lparr>row_of = 0, col_of = 0, value_of = 5, next_of = Some 2\<rparr>,
        \<lparr>row_of = 0, col_of = 0, value_of = 12, next_of = Some 3\<rparr>,
        \<lparr>row_of = 0, col_of = 0, value_of = 17, next_of = Some 4\<rparr>],
      matrices =
       [\<lparr>head_of = Some 1, num_rows_of = 1, num_cols_of = 1\<rparr>,
        \<lparr>head_of = Some 5, num_rows_of = 1, num_cols_of = 1\<rparr>]\<rparr> \<and>
   (\<exists>f'. well_formed
       \<lparr>nodes =
         [\<lparr>row_of = 0, col_of = 0, value_of = 5, next_of = None\<rparr>,
          \<lparr>row_of = 0, col_of = 0, value_of = 7, next_of = Some 0\<rparr>,
          \<lparr>row_of = 0, col_of = 0, value_of = 7, next_of = None\<rparr>,
          \<lparr>row_of = 0, col_of = 0, value_of = 5, next_of = Some 2\<rparr>,
          \<lparr>row_of = 0, col_of = 0, value_of = 12, next_of = Some 3\<rparr>,
          \<lparr>row_of = 0, col_of = 0, value_of = 17, next_of = Some 4\<rparr>],
        matrices =
         [\<lparr>head_of = Some 1, num_rows_of = 1, num_cols_of = 1\<rparr>,
          \<lparr>head_of = Some 5, num_rows_of = 1, num_cols_of = 1\<rparr>]\<rparr> f' \<and>
      subseq [0] (f' 0) \<and> 1 \<le> length (f' 0))"
proof -
  let ?s = "\<lparr>nodes = [\<lparr>row_of = 0, col_of = 0, value_of = 5, next_of = None\<rparr>],
      matrices = [\<lparr>head_of = Some 0, num_rows_of = 1, num_cols_of = 1\<rparr>]\<rparr>"
  let ?calls = "[SetElement 0 0 0 7, Add 0 0, GetElement 1 0 0]"
  have wf: "well_formed ?s (\<lambda>m. [0])"
    by (simp add: well_formed_def)
  have run: "run_calls ?s ?calls =
   Some \<lparr>nodes =
       [\<lparr>row_of = 0, col_of = 0, value_of = 5, next_of = None\<rparr>,
        \<lparr>row_of = 0, col_of = 0, value_of = 7, next_of = Some 0\<rparr>,
        \<lparr>row_of = 0, col_of = 0, value_of = 7, next_of = None\<rparr>,
        \<lparr>row_of = 0, col_of = 0, value_of = 5, next_of = Some 2\<rparr>,
        \<lparr>row_of = 0, col_of = 0, value_of = 12, next_of = Some 3\<rparr>,
        \<lparr>row_of = 0, col_of = 0, value_of = 17, next_of = Some 4\<rparr>],
      matrices =
       [\<lparr>head_of = Some 1, num_rows_of = 1, num_cols_of = 1\<rparr>,
        \<lparr>head_of = Some 5, num_rows_of = 1, num_cols_of = 1\<rparr>]\<rparr>"
    by code_simp
  from stored_nodes_never_removed [OF wf, THEN conjunct1, rule_format, OF run]
  obtain f' where wf': "well_formed
       \<lparr>nodes =
         [\<lparr>row_of = 0, col_of = 0, value_of = 5, next_of = None\<rparr>,
          \<lparr>row_of = 0, col_of = 0, value_of = 7, next_of = Some 0\<rparr>,
          \<lparr>row_of = 0, col_of = 0, value_of = 7, next_of = None\<rparr>,
          \<lparr>row_of = 0, col_of = 0, value_of = 5, next_of = Some 2\<rparr>,
          \<lparr>row_of = 0, col_of = 0, value_of = 12, next_of = Some 3\<rparr>,
          \<lparr>row_of = 0, col_of = 0, value_of = 17, next_of = Some 4\<rparr>],
        matrices =
         [\<lparr>head_of = Some 1, num_rows_of = 1, num_cols_of = 1\<rparr>,
          \<lparr>head_of = Some 5, num_rows_of = 1, num_cols_of = 1\<rparr>]\<rparr> f'"
    and old: "\<forall>m<length (matrices ?s).
        subseq [0] (f' m) \<and> length [0::nat] \<le> length (f' m) \<and>
        contents
          \<lparr>nodes =
            [\<lparr>row_of = 0, col_of = 0, value_of = 5, next_of = None\<rparr>,
             \<lparr>row_of = 0, col_of = 0, value_of = 7, next_of = Some 0\<rparr>,
             \<lparr>row_of = 0, col_of = 0, value_of = 7, next_of = None\<rparr>,
             \<lparr>row_of = 0, col_of = 0, value_of = 5, next_of = Some 2\<rparr>,
             \<lparr>row_of = 0, col_of = 0, value_of = 12, next_of = Some 3\<rparr>,
             \<lparr>row_of = 0, col_of = 0, value_of = 17, next_of = Some 4\<rparr>],
           matrices =
            [\<lparr>head_of = Some 1, num_rows_of = 1, num_cols_of = 1\<rparr>,
             \<lparr>head_of = Some 5, num_rows_of = 1, num_cols_of = 1\<rparr>]\<rparr> [0] =
        contents ?s [0]"
    by blast
  from old have "subseq [0] (f' 0) \<and> 1 \<le> length (f' 0)"
    by simp
  with wf wf' run show ?thesis by blast
qed

end
